theory Spec2Isabelle
  imports Complex_Main "HOL-Library.Word" "HOL-Library.AList"
begin

section \<open>The packet codec of \<^verbatim>\<open>ai_router.py\<close> (class \<^verbatim>\<open>RIPPacket\<close>)\<close>

text \<open>
  Python integers are unbounded, so every integer of the program is an \<^typ>\<open>int\<close>.
  A \<^verbatim>\<open>bytes\<close> value is a list of 8-bit words. \<^verbatim>\<open>struct.pack\<close> raises
  \<^verbatim>\<open>struct.error\<close> when a value does not fit its field and \<^verbatim>\<open>struct.unpack\<close>
  raises it when the buffer has the wrong length; both are the value \<open>Inl StructError\<close> here.
  Reading a dictionary at a key it does not hold raises \<^verbatim>\<open>KeyError\<close>, the value
  \<open>Inl KeyError\<close>.
\<close>

datatype error = StructError | KeyError

type_synonym byte = "8 word"
type_synonym bytes = "byte list"

definition HEADER_SIZE :: nat where "HEADER_SIZE = 4"
definition RTE_SIZE :: nat where "RTE_SIZE = 20"
definition COMMAND_REQUEST :: int where "COMMAND_REQUEST = 1"
definition COMMAND_RESPONSE :: int where "COMMAND_RESPONSE = 2"
definition VERSION :: int where "VERSION = 2"
definition INFINITY :: int where "INFINITY = 16"

subsection \<open>The \<^verbatim>\<open>struct\<close> formats in use, big-endian (\<^verbatim>\<open>!\<close>)\<close>

text \<open>\<^verbatim>\<open>B\<close>: one unsigned byte.\<close>

definition pack_B :: "int \<Rightarrow> error + bytes" where
  "pack_B n = (if 0 \<le> n \<and> n \<le> 255 then Inr [word_of_int n] else Inl StructError)"

text \<open>\<^verbatim>\<open>H\<close>: an unsigned 16-bit integer, most significant byte first.\<close>

definition pack_H :: "int \<Rightarrow> error + bytes" where
  "pack_H n =
     (if 0 \<le> n \<and> n \<le> 65535 then Inr [word_of_int (n div 256), word_of_int n]
      else Inl StructError)"

text \<open>\<^verbatim>\<open>I\<close>: an unsigned 32-bit integer, most significant byte first.\<close>

definition pack_I :: "int \<Rightarrow> error + bytes" where
  "pack_I n =
     (if 0 \<le> n \<and> n \<le> 4294967295
      then Inr [word_of_int (n div 16777216), word_of_int (n div 65536),
                word_of_int (n div 256), word_of_int n]
      else Inl StructError)"

definition unpack_H :: "byte \<Rightarrow> byte \<Rightarrow> int" where
  "unpack_H a b = uint a * 256 + uint b"

definition unpack_I :: "byte \<Rightarrow> byte \<Rightarrow> byte \<Rightarrow> byte \<Rightarrow> int" where
  "unpack_I a b c d = uint a * 16777216 + uint b * 65536 + uint c * 256 + uint d"

text \<open>\<^verbatim>\<open>struct.pack('!BBH', command, version, router_id)\<close>\<close>

definition pack_BBH :: "int \<Rightarrow> int \<Rightarrow> int \<Rightarrow> error + bytes" where
  "pack_BBH command version router_id =
     (case pack_B command of Inl e \<Rightarrow> Inl e
      | Inr c \<Rightarrow>
        (case pack_B version of Inl e \<Rightarrow> Inl e
         | Inr v \<Rightarrow>
           (case pack_H router_id of Inl e \<Rightarrow> Inl e
            | Inr r \<Rightarrow> Inr (c @ v @ r))))"

text \<open>\<^verbatim>\<open>struct.unpack('!BBH', buf)\<close>: the buffer must hold exactly four bytes.\<close>

fun unpack_BBH :: "bytes \<Rightarrow> error + (int \<times> int \<times> int)" where
  "unpack_BBH [c, v, r1, r0] = Inr (uint c, uint v, unpack_H r1 r0)"
| "unpack_BBH _ = Inl StructError"

text \<open>\<^verbatim>\<open>struct.pack('!12xII', dest_id, metric)\<close>: twelve zero bytes, then two fields.\<close>

definition pack_12xII :: "int \<Rightarrow> int \<Rightarrow> error + bytes" where
  "pack_12xII dest_id metric =
     (case pack_I dest_id of Inl e \<Rightarrow> Inl e
      | Inr d \<Rightarrow>
        (case pack_I metric of Inl e \<Rightarrow> Inl e
         | Inr m \<Rightarrow> Inr (replicate 12 0 @ d @ m)))"

text \<open>
  \<^verbatim>\<open>struct.unpack('!12xII', buf)\<close>: the buffer must hold exactly twenty bytes; the
  first twelve are skipped whatever they hold.
\<close>

definition unpack_12xII :: "bytes \<Rightarrow> error + (int \<times> int)" where
  "unpack_12xII buf =
     (if length buf = 20
      then Inr (unpack_I (buf ! 12) (buf ! 13) (buf ! 14) (buf ! 15),
                unpack_I (buf ! 16) (buf ! 17) (buf ! 18) (buf ! 19))
      else Inl StructError)"

subsection \<open>Encoding\<close>

definition create_header :: "int \<Rightarrow> int \<Rightarrow> int \<Rightarrow> error + bytes" where
  "create_header router_id command version = pack_BBH command version router_id"

definition create_rte :: "int \<Rightarrow> int \<Rightarrow> error + bytes" where
  "create_rte dest_id metric = pack_12xII dest_id metric"

text \<open>The loop \<^verbatim>\<open>for dest_id, metric in routes: packet += create_rte(dest_id, metric)\<close>.\<close>

fun append_rtes :: "bytes \<Rightarrow> (int \<times> int) list \<Rightarrow> error + bytes" where
  "append_rtes packet [] = Inr packet"
| "append_rtes packet ((dest_id, metric) # routes) =
     (case create_rte dest_id metric of Inl e \<Rightarrow> Inl e
      | Inr rte \<Rightarrow> append_rtes (packet @ rte) routes)"

text \<open>
  \<^verbatim>\<open>create_response\<close> calls \<^verbatim>\<open>create_header(router_id)\<close>, whose defaults are
  \<^verbatim>\<open>command=COMMAND_RESPONSE, version=VERSION\<close>, and returns one \<^verbatim>\<open>bytes\<close> value.
\<close>

definition create_response :: "int \<Rightarrow> (int \<times> int) list \<Rightarrow> error + bytes" where
  "create_response router_id routes =
     (case create_header router_id COMMAND_RESPONSE VERSION of Inl e \<Rightarrow> Inl e
      | Inr packet \<Rightarrow> append_rtes packet routes)"

subsection \<open>Decoding\<close>

text \<open>The slice \<^verbatim>\<open>data[start:end]\<close> of a Python sequence, for \<open>0 \<le> start \<le> end\<close>.\<close>

definition slice :: "'a list \<Rightarrow> nat \<Rightarrow> nat \<Rightarrow> 'a list" where
  "slice data start end = take (end - start) (drop start data)"

text \<open>
  The loop \<^verbatim>\<open>for i in range(rte_count)\<close> of \<^verbatim>\<open>parse\<close>, over the list of indices
  still to visit, with the list \<^verbatim>\<open>routes\<close> built so far.
\<close>

fun parse_rtes :: "bytes \<Rightarrow> nat list \<Rightarrow> (int \<times> int) list \<Rightarrow> error + (int \<times> int) list" where
  "parse_rtes data [] routes = Inr routes"
| "parse_rtes data (i # is) routes =
     (let start = HEADER_SIZE + i * RTE_SIZE;
          end = start + RTE_SIZE
      in (case unpack_12xII (slice data start end) of Inl e \<Rightarrow> Inl e
          | Inr (dest_id, metric) \<Rightarrow>
              if 0 \<le> metric \<and> metric \<le> INFINITY
              then parse_rtes data is (routes @ [(dest_id, metric)])
              else parse_rtes data is routes))"

text \<open>
  \<^verbatim>\<open>parse\<close> returns \<^verbatim>\<open>None\<close> (here \<open>Inr None\<close>) or the tuple
  \<^verbatim>\<open>(command, version, router_id, routes)\<close> (here \<open>Inr (Some \<dots>)\<close>); an exception
  escaping it would be \<open>Inl\<close>.
\<close>

type_synonym parsed = "int \<times> int \<times> int \<times> (int \<times> int) list"

definition parse :: "bytes \<Rightarrow> error + parsed option" where
  "parse data =
     (if length data < HEADER_SIZE then Inr None
      else
        case unpack_BBH (take HEADER_SIZE data) of Inl e \<Rightarrow> Inl e
        | Inr (command, version, router_id) \<Rightarrow>
            if version \<noteq> VERSION then Inr None
            else
              let rte_count = (length data - HEADER_SIZE) div RTE_SIZE
              in (case parse_rtes data [0..<rte_count] [] of Inl e \<Rightarrow> Inl e
                  | Inr routes \<Rightarrow> Inr (Some (command, version, router_id, routes))))"


section \<open>The routing engine of \<^verbatim>\<open>ai_router.py\<close> (class \<^verbatim>\<open>Router\<close>)\<close>

text \<open>
  Timestamps are Python floats: readings of \<^verbatim>\<open>time.time()\<close>, taken here as real
  numbers, and \<^verbatim>\<open>float('inf')\<close>, the timestamp of the router's own route.
\<close>

datatype ptime = Finite real | PosInf

text \<open>
  The test \<^verbatim>\<open>now - timestamp > limit\<close>: with an infinite timestamp the difference
  is minus infinity and the test is false.
\<close>

definition elapsed_gt :: "real \<Rightarrow> ptime \<Rightarrow> int \<Rightarrow> bool" where
  "elapsed_gt now timestamp limit =
     (case timestamp of Finite t \<Rightarrow> now - t > real_of_int limit | PosInf \<Rightarrow> False)"

text \<open>
  A routing-table value is the tuple \<^verbatim>\<open>(next_hop_id, metric, timestamp, garbage_collection)\<close>,
  an output the tuple \<^verbatim>\<open>(port, metric, router_id)\<close>. The dictionary \<^verbatim>\<open>self.routes\<close>
  is an association list in insertion order, as a Python \<^verbatim>\<open>dict\<close> iterates:
  \<^const>\<open>AList.update\<close> overwrites a key in place or appends a new one,
  \<^const>\<open>AList.delete\<close> removes it, \<^const>\<open>map_of\<close> looks it up.
\<close>

type_synonym route = "int \<times> int \<times> ptime \<times> bool"
type_synonym output_entry = "int \<times> int \<times> int"
type_synonym table = "(int \<times> route) list"

record router =
  router_id :: int
  outputs :: "output_entry list"
  routes :: table
  route_timeout :: int
  garbage_collection_timeout :: int

text \<open>
  The table that \<^verbatim>\<open>__init__\<close> builds once the configuration is parsed: one route per
  configured neighbour, then the router's own route with metric 0 and an infinite timestamp.
\<close>

definition init_routes :: "int \<Rightarrow> output_entry list \<Rightarrow> real \<Rightarrow> table" where
  "init_routes self_id outs now =
     AList.update self_id (self_id, 0, PosInf, False)
       (fold (\<lambda>(_, metric, neighbor_id) tbl.
                AList.update neighbor_id (neighbor_id, metric, Finite now, False) tbl)
          outs [])"

subsection \<open>\<^verbatim>\<open>send_updates\<close>\<close>

text \<open>
  The inner loop over \<^verbatim>\<open>self.routes.items()\<close> that builds \<^verbatim>\<open>routes_to_send\<close>
  for one neighbour.
\<close>

fun routes_to_send_loop :: "int \<Rightarrow> table \<Rightarrow> (int \<times> int) list \<Rightarrow> (int \<times> int) list" where
  "routes_to_send_loop neighbor_id [] routes_to_send = routes_to_send"
| "routes_to_send_loop neighbor_id ((dest_id, (next_hop_id, metric, _, _)) # items) routes_to_send =
     (if next_hop_id = neighbor_id
      then routes_to_send_loop neighbor_id items (routes_to_send @ [(dest_id, INFINITY)])
      else routes_to_send_loop neighbor_id items (routes_to_send @ [(dest_id, metric)]))"

definition routes_to_send :: "int \<Rightarrow> table \<Rightarrow> (int \<times> int) list" where
  "routes_to_send neighbor_id tbl = routes_to_send_loop neighbor_id tbl []"

text \<open>
  The outer loop over \<^verbatim>\<open>self.outputs\<close>. The result lists the datagrams handed to
  \<^verbatim>\<open>sendto\<close>, each with its destination port; a \<^verbatim>\<open>struct.error\<close> of
  \<^verbatim>\<open>create_response\<close> is outside the \<^verbatim>\<open>try\<close> block and ends the loop.
\<close>

fun send_updates_loop :: "router \<Rightarrow> output_entry list \<Rightarrow> (bytes \<times> int) list \<Rightarrow> error + (bytes \<times> int) list" where
  "send_updates_loop r [] sent = Inr sent"
| "send_updates_loop r ((out_port, out_metric, neighbor_id) # outs) sent =
     (case create_response (router_id r) (routes_to_send neighbor_id (routes r)) of
        Inl e \<Rightarrow> Inl e
      | Inr packet \<Rightarrow> send_updates_loop r outs (sent @ [(packet, out_port)]))"

definition send_updates :: "router \<Rightarrow> error + (bytes \<times> int) list" where
  "send_updates r = send_updates_loop r (outputs r) []"

subsection \<open>\<^verbatim>\<open>process_update\<close>\<close>

text \<open>The search loop for the output entry of the sending neighbour, with its \<^verbatim>\<open>break\<close>.\<close>

fun find_neighbor :: "output_entry list \<Rightarrow> int \<Rightarrow> output_entry option" where
  "find_neighbor [] sender = None"
| "find_neighbor ((port, metric, n_id) # outs) sender =
     (if n_id = sender then Some (port, metric, n_id) else find_neighbor outs sender)"

text \<open>
  One iteration of \<^verbatim>\<open>for dest_id, metric in routes\<close>, on the pair of the table and
  the flag \<^verbatim>\<open>table_modified\<close>.
\<close>

definition process_route ::
  "int \<Rightarrow> int \<Rightarrow> int \<Rightarrow> real \<Rightarrow> int \<times> int \<Rightarrow> table \<times> bool \<Rightarrow> table \<times> bool" where
  "process_route self_id sender base_metric now advertised state =
     (case (advertised, state) of ((dest_id, metric), (tbl, table_modified)) \<Rightarrow>
        if dest_id = self_id then (tbl, table_modified)
        else
          let new_metric = min (base_metric + metric) INFINITY
          in (case map_of tbl dest_id of
                Some (current_next_hop, current_metric, timestamp, garbage) \<Rightarrow>
                  if current_next_hop = sender then
                    if new_metric \<noteq> current_metric then
                      if new_metric \<ge> INFINITY \<and> current_metric < INFINITY
                      then (AList.update dest_id (sender, INFINITY, Finite now, True) tbl, True)
                      else (AList.update dest_id (sender, new_metric, Finite now, garbage) tbl, True)
                    else (AList.update dest_id (sender, current_metric, Finite now, garbage) tbl,
                          table_modified)
                  else if new_metric < current_metric
                  then (AList.update dest_id (sender, new_metric, Finite now, False) tbl, True)
                  else (tbl, table_modified)
              | None \<Rightarrow>
                  if new_metric < INFINITY
                  then (AList.update dest_id (sender, new_metric, Finite now, False) tbl, True)
                  else (tbl, table_modified)))"

text \<open>
  \<^verbatim>\<open>process_update(router_id, routes)\<close> at the clock reading \<open>now\<close>: the new router
  state and the returned flag.
\<close>

definition process_update :: "router \<Rightarrow> int \<Rightarrow> (int \<times> int) list \<Rightarrow> real \<Rightarrow> router \<times> bool" where
  "process_update r sender advertised now =
     (case find_neighbor (outputs r) sender of
        None \<Rightarrow> (r, False)
      | Some (_, base_metric, _) \<Rightarrow>
          (case fold (process_route (router_id r) sender base_metric now) advertised
                  (routes r, False) of
             (tbl, table_modified) \<Rightarrow> (r\<lparr>routes := tbl\<rparr>, table_modified)))"

subsection \<open>\<^verbatim>\<open>check_timeouts\<close>\<close>

text \<open>
  The loop runs over \<^verbatim>\<open>list(self.routes.keys())\<close>, a copy of the keys taken before the
  first iteration, and reads \<^verbatim>\<open>self.routes[dest_id]\<close> in each.
\<close>

fun check_keys ::
  "int \<Rightarrow> int \<Rightarrow> int \<Rightarrow> real \<Rightarrow> int list \<Rightarrow> table \<times> bool \<Rightarrow> error + (table \<times> bool)" where
  "check_keys self_id rt gc now [] state = Inr state"
| "check_keys self_id rt gc now (dest_id # keys) (tbl, table_modified) =
     (if dest_id = self_id then check_keys self_id rt gc now keys (tbl, table_modified)
      else
        (case map_of tbl dest_id of
           None \<Rightarrow> Inl KeyError
         | Some (next_hop, metric, timestamp, garbage) \<Rightarrow>
             if garbage then
               if elapsed_gt now timestamp gc
               then check_keys self_id rt gc now keys (AList.delete dest_id tbl, True)
               else check_keys self_id rt gc now keys (tbl, table_modified)
             else
               if elapsed_gt now timestamp rt
               then check_keys self_id rt gc now keys
                      (AList.update dest_id (next_hop, INFINITY, Finite now, True) tbl, True)
               else check_keys self_id rt gc now keys (tbl, table_modified)))"

definition check_timeouts :: "router \<Rightarrow> real \<Rightarrow> error + (router \<times> bool)" where
  "check_timeouts r now =
     (case check_keys (router_id r) (route_timeout r) (garbage_collection_timeout r) now
             (map fst (routes r)) (routes r, False) of
        Inl e \<Rightarrow> Inl e
      | Inr (tbl, table_modified) \<Rightarrow> Inr (r\<lparr>routes := tbl\<rparr>, table_modified))"

subsection \<open>The event loop of \<^verbatim>\<open>run\<close>\<close>

text \<open>
  \<^verbatim>\<open>sock.recvfrom(2048)\<close> returns at most 2048 bytes of a datagram; the rest is
  discarded.
\<close>

definition RECV_BUFSIZE :: nat where "RECV_BUFSIZE = 2048"

definition recvfrom :: "bytes \<Rightarrow> bytes" where
  "recvfrom datagram = take RECV_BUFSIZE datagram"

text \<open>
  The body of \<^verbatim>\<open>for sock in readable\<close>, from the received bytes on: the packet is
  parsed, and only a parsed packet whose command is \<^verbatim>\<open>COMMAND_RESPONSE\<close> reaches
  \<^verbatim>\<open>process_update\<close>. The \<^verbatim>\<open>except Exception\<close> clause prints and goes on.
\<close>

definition handle_packet :: "router \<Rightarrow> bytes \<Rightarrow> real \<Rightarrow> router \<times> bool" where
  "handle_packet r data now =
     (case parse data of
        Inl e \<Rightarrow> (r, False)
      | Inr None \<Rightarrow> (r, False)
      | Inr (Some (command, version, sender, advertised)) \<Rightarrow>
          if command = COMMAND_RESPONSE then process_update r sender advertised now
          else (r, False))"

text \<open>
  What one pass of the loop does to the table is one of two events: a datagram is handled,
  or the timeouts are checked. An exception that leaves \<^verbatim>\<open>check_timeouts\<close> ends
  \<^verbatim>\<open>run\<close>.
\<close>

datatype event = Update int "(int \<times> int) list" real | Datagram bytes real | Sweep real

definition apply_event :: "router \<Rightarrow> event \<Rightarrow> error + router" where
  "apply_event r ev =
     (case ev of
        Update sender advertised now \<Rightarrow> Inr (fst (process_update r sender advertised now))
      | Datagram datagram now \<Rightarrow> Inr (fst (handle_packet r (recvfrom datagram) now))
      | Sweep now \<Rightarrow> map_sum id fst (check_timeouts r now))"

fun apply_events :: "router \<Rightarrow> event list \<Rightarrow> error + router" where
  "apply_events r [] = Inr r"
| "apply_events r (ev # evs) =
     (case apply_event r ev of Inl e \<Rightarrow> Inl e | Inr r' \<Rightarrow> apply_events r' evs)"


section \<open>The routing engine of \<^verbatim>\<open>1Server.py\<close> (class \<^verbatim>\<open>Router\<close>)\<close>

text \<open>
  \<^verbatim>\<open>1Server.py\<close> imports its table entries, its packet functions and its timer from
  \<^verbatim>\<open>forwarding_table.py\<close>, \<^verbatim>\<open>packets.py\<close> and \<^verbatim>\<open>timer.py\<close>. Its constant
  \<^verbatim>\<open>INFINITY = 16\<close> has the value of \<^const>\<open>INFINITY\<close> above.
\<close>

text \<open>
  Modelled from the spec: the class \<^verbatim>\<open>RoutingTableEntry\<close> of \<^verbatim>\<open>forwarding_table.py\<close>,
  a file that is not among the sources. The fields are the attributes \<^verbatim>\<open>1Server.py\<close> reads
  and writes; \<open>timeout\<close> is the spec's \<^verbatim>\<open>last_update_time\<close> and \<open>garbage_time\<close> its
  \<^verbatim>\<open>garbage_start_time\<close>, both clock readings.
\<close>

record entry =
  dst_id :: int
  next_hop :: int
  metric :: int
  changed_flag :: bool
  garbage_flag :: bool
  timeout :: real
  garbage_time :: real

text \<open>
  Modelled from the spec: the constructor \<^verbatim>\<open>RoutingTableEntry(dst_id, next_hop, metric)\<close>
  of the missing class. A new entry has both flags down; its two clock fields are written by
  \<^verbatim>\<open>init_timeout\<close> and \<^verbatim>\<open>init_garbage\<close> before anything reads them.
\<close>

definition RoutingTableEntry :: "int \<Rightarrow> int \<Rightarrow> int \<Rightarrow> entry" where
  "RoutingTableEntry d nh m =
     \<lparr>dst_id = d, next_hop = nh, metric = m, changed_flag = False, garbage_flag = False,
      timeout = 0, garbage_time = 0\<rparr>"

text \<open>
  Modelled from the spec: the method \<^verbatim>\<open>init_timeout\<close> of the missing class, which
  refreshes the timestamp that drives the timeout window.
\<close>

definition init_timeout :: "real \<Rightarrow> entry \<Rightarrow> entry" where
  "init_timeout now e = e\<lparr>timeout := now\<rparr>"

text \<open>
  Modelled from the spec: the method \<^verbatim>\<open>init_garbage\<close> of the missing class, which
  starts the garbage timer.
\<close>

definition init_garbage :: "real \<Rightarrow> entry \<Rightarrow> entry" where
  "init_garbage now e = e\<lparr>garbage_time := now\<rparr>"

text \<open>
  Modelled from the spec: the class \<^verbatim>\<open>OutputInterface\<close> of the configured neighbours,
  which the sources do not hold, with the three attributes \<^verbatim>\<open>1Server.py\<close> reads.
\<close>

record output_interface =
  peer_id :: int
  link_cost :: int
  peer_port_no :: int

text \<open>
  The router object: \<open>server_id\<close> is \<^verbatim>\<open>self.id\<close>, \<open>server_outputs\<close> is
  \<^verbatim>\<open>self.outputs\<close>, \<open>garbage_period\<close> is \<^verbatim>\<open>self.garbage_time\<close> (a duration, whereas
  an entry's \<open>garbage_time\<close> is a clock reading). The dictionary \<^verbatim>\<open>self.routing_table\<close>
  maps a destination to its entry object.
\<close>

type_synonym routing_table = "(int \<times> entry) list"

record server =
  server_id :: int
  server_outputs :: "output_interface list"
  timeout_time :: real
  garbage_period :: real
  routing_table :: routing_table
  triggered_update_call :: bool

subsection \<open>\<^verbatim>\<open>resolve_update\<close>\<close>

text \<open>
  The loop \<^verbatim>\<open>for output in self.outputs\<close> that adds the link cost to a received entry.
  It has no \<^verbatim>\<open>break\<close>, and it leaves the entry as received when no output has the
  sender's id.
\<close>

fun add_link_cost :: "output_interface list \<Rightarrow> int \<Rightarrow> entry \<Rightarrow> entry" where
  "add_link_cost [] src_id entry = entry"
| "add_link_cost (output # outs) src_id entry =
     (if peer_id output = src_id
      then add_link_cost outs src_id (entry\<lparr>metric := min (metric entry + link_cost output) INFINITY\<rparr>)
      else add_link_cost outs src_id entry)"

text \<open>
  The three statements \<^verbatim>\<open>entry.changed_flag = True; entry.init_timeout();
  self.routing_table[entry.dst_id] = entry\<close> shared by the replacing branches.
\<close>

definition install :: "real \<Rightarrow> entry \<Rightarrow> routing_table \<Rightarrow> routing_table" where
  "install now entry tbl =
     AList.update (dst_id entry) (init_timeout now (entry\<lparr>changed_flag := True\<rparr>)) tbl"

text \<open>
  One iteration of \<^verbatim>\<open>for entry in table_entries\<close>, on the pair of the table and the
  flag \<^verbatim>\<open>triggered_update_call\<close>.
\<close>

definition resolve_entry ::
  "int \<Rightarrow> output_interface list \<Rightarrow> real \<Rightarrow> int \<Rightarrow> real \<Rightarrow> entry \<Rightarrow>
   routing_table \<times> bool \<Rightarrow> routing_table \<times> bool" where
  "resolve_entry self_id outs tt src_id now received state =
     (case state of (tbl, trig) \<Rightarrow>
        if dst_id received \<noteq> self_id then
          let entry = add_link_cost outs src_id received
          in (case map_of tbl (dst_id entry) of
                None \<Rightarrow>
                  if metric entry \<noteq> INFINITY then (install now entry tbl, trig)
                  else (tbl, trig)
              | Some current \<Rightarrow>
                  if garbage_flag current \<and> metric entry < INFINITY
                  then (install now entry tbl, trig)
                  else if metric entry = metric current then
                    if next_hop entry = next_hop current
                    then (AList.update (dst_id entry) (init_timeout now current) tbl, trig)
                    else if now \<ge> timeout current + tt / 2
                    then (install now entry tbl, trig)
                    else (tbl, trig)
                  else if (next_hop current = src_id \<and> metric entry \<noteq> metric current)
                          \<or> metric entry < metric current then
                    if metric entry = INFINITY
                    then (AList.update (dst_id entry)
                            (init_garbage now
                               ((init_timeout now (entry\<lparr>changed_flag := True\<rparr>))
                                  \<lparr>garbage_flag := True\<rparr>)) tbl, True)
                    else (install now entry tbl, trig)
                  else (tbl, trig))
        else (tbl, trig))"

text \<open>
  \<^verbatim>\<open>resolve_update(data)\<close> from the result \<^verbatim>\<open>(src_id, table_entries)\<close> of
  \<^verbatim>\<open>decode_packet(data)\<close> on, at the clock reading \<open>now\<close>. The function
  \<^verbatim>\<open>decode_packet\<close> is in \<^verbatim>\<open>packets.py\<close>, which is not among the sources, so its
  result is the argument here.
\<close>

definition resolve_update :: "server \<Rightarrow> int \<times> entry list \<Rightarrow> real \<Rightarrow> server" where
  "resolve_update s decoded now =
     (case decoded of (src_id, table_entries) \<Rightarrow>
        (case fold (resolve_entry (server_id s) (server_outputs s) (timeout_time s) src_id now)
                table_entries (routing_table s, triggered_update_call s) of
           (tbl, trig) \<Rightarrow> s\<lparr>routing_table := tbl, triggered_update_call := trig\<rparr>))"

subsection \<open>\<^verbatim>\<open>periodic_update\<close> and \<^verbatim>\<open>triggered_update\<close>\<close>

text \<open>
  The loop that builds \<^verbatim>\<open>entries_sh_pr\<close> for the neighbour \<^verbatim>\<open>output.peer_id\<close>,
  the same in both functions.
\<close>

fun entries_sh_pr_loop :: "int \<Rightarrow> entry list \<Rightarrow> entry list \<Rightarrow> entry list" where
  "entries_sh_pr_loop peer [] entries_sh_pr = entries_sh_pr"
| "entries_sh_pr_loop peer (entry # table_entries) entries_sh_pr =
     (if next_hop entry = peer
      then entries_sh_pr_loop peer table_entries
             (entries_sh_pr @ [RoutingTableEntry (dst_id entry) (next_hop entry) INFINITY])
      else entries_sh_pr_loop peer table_entries (entries_sh_pr @ [entry]))"

definition entries_sh_pr :: "int \<Rightarrow> entry list \<Rightarrow> entry list" where
  "entries_sh_pr peer table_entries = entries_sh_pr_loop peer table_entries []"

text \<open>
  The loop over \<^verbatim>\<open>self.outputs\<close>: for each neighbour, the entry list given to
  \<^verbatim>\<open>encode_packet\<close> (of the missing \<^verbatim>\<open>packets.py\<close>) and the port its packets are
  sent to.
\<close>

definition broadcast :: "output_interface list \<Rightarrow> entry list \<Rightarrow> (entry list \<times> int) list" where
  "broadcast outs table_entries =
     map (\<lambda>output. (entries_sh_pr (peer_id output) table_entries, peer_port_no output)) outs"

definition clear_changed :: "routing_table \<Rightarrow> routing_table" where
  "clear_changed tbl =
     AList.map_ran (\<lambda>destination e. if changed_flag e then e\<lparr>changed_flag := False\<rparr> else e) tbl"

text \<open>
  \<^verbatim>\<open>periodic_update\<close>: the new router state and what was broadcast. The list starts
  with a route to the router itself at metric 0.
\<close>

definition periodic_update :: "server \<Rightarrow> server \<times> (entry list \<times> int) list" where
  "periodic_update s =
     (let table_entries = RoutingTableEntry (server_id s) (server_id s) 0 # map snd (routing_table s)
      in (s\<lparr>routing_table := clear_changed (routing_table s), triggered_update_call := False\<rparr>,
          broadcast (server_outputs s) table_entries))"

text \<open>
  \<^verbatim>\<open>triggered_update\<close>: the entries with the flag up are collected and their flag is
  lowered in the same loop; the collected list holds these very objects, flag down.
\<close>

definition triggered_update :: "server \<Rightarrow> server \<times> (entry list \<times> int) list" where
  "triggered_update s =
     (let table_entries =
            map (\<lambda>e. e\<lparr>changed_flag := False\<rparr>) (filter changed_flag (map snd (routing_table s)))
      in (s\<lparr>routing_table := clear_changed (routing_table s), triggered_update_call := False\<rparr>,
          if length table_entries > 0 then broadcast (server_outputs s) table_entries else []))"

subsection \<open>\<^verbatim>\<open>check_timeout\<close> and \<^verbatim>\<open>check_garbage\<close>\<close>

text \<open>
  Both loops run over the entry objects of the table and reach each one again through
  \<^verbatim>\<open>self.routing_table[entry.dst_id]\<close>; the list argument holds the \<^verbatim>\<open>dst_id\<close> of
  the objects still to visit.
\<close>

fun check_timeout_loop :: "real \<Rightarrow> real \<Rightarrow> int list \<Rightarrow> routing_table \<times> bool \<Rightarrow> error + (routing_table \<times> bool)" where
  "check_timeout_loop tt now [] state = Inr state"
| "check_timeout_loop tt now (d # ds) (tbl, trig) =
     (case map_of tbl d of
        None \<Rightarrow> Inl KeyError
      | Some current \<Rightarrow>
          if garbage_flag current = False then
            if now \<ge> timeout current + tt
            then check_timeout_loop tt now ds
                   (AList.update d
                      ((init_garbage now current)
                         \<lparr>garbage_flag := True, metric := INFINITY, changed_flag := True\<rparr>) tbl,
                    True)
            else check_timeout_loop tt now ds (tbl, trig)
          else check_timeout_loop tt now ds (tbl, trig))"

definition check_timeout :: "server \<Rightarrow> real \<Rightarrow> error + server" where
  "check_timeout s now =
     (case check_timeout_loop (timeout_time s) now (map (dst_id \<circ> snd) (routing_table s))
             (routing_table s, triggered_update_call s) of
        Inl e \<Rightarrow> Inl e
      | Inr (tbl, trig) \<Rightarrow> Inr (s\<lparr>routing_table := tbl, triggered_update_call := trig\<rparr>))"

text \<open>The first loop of \<^verbatim>\<open>check_garbage\<close> fills \<^verbatim>\<open>remove_list\<close>.\<close>

fun remove_list_loop :: "real \<Rightarrow> real \<Rightarrow> routing_table \<Rightarrow> int list \<Rightarrow> int list \<Rightarrow> error + int list" where
  "remove_list_loop gp now tbl [] remove_list = Inr remove_list"
| "remove_list_loop gp now tbl (d # ds) remove_list =
     (case map_of tbl d of
        None \<Rightarrow> Inl KeyError
      | Some current \<Rightarrow>
          if garbage_flag current = True then
            if now \<ge> garbage_time current + gp
            then remove_list_loop gp now tbl ds (remove_list @ [d])
            else remove_list_loop gp now tbl ds remove_list
          else remove_list_loop gp now tbl ds remove_list)"

text \<open>The second loop deletes; \<^verbatim>\<open>del\<close> of a key that is not there raises.\<close>

fun delete_all :: "int list \<Rightarrow> routing_table \<Rightarrow> error + routing_table" where
  "delete_all [] tbl = Inr tbl"
| "delete_all (remove_id # remove_list) tbl =
     (case map_of tbl remove_id of
        None \<Rightarrow> Inl KeyError
      | Some _ \<Rightarrow> delete_all remove_list (AList.delete remove_id tbl))"

definition check_garbage :: "server \<Rightarrow> real \<Rightarrow> error + server" where
  "check_garbage s now =
     (case remove_list_loop (garbage_period s) now (routing_table s)
             (map (dst_id \<circ> snd) (routing_table s)) [] of
        Inl e \<Rightarrow> Inl e
      | Inr remove_list \<Rightarrow>
          (case delete_all remove_list (routing_table s) of
             Inl e \<Rightarrow> Inl e
           | Inr tbl \<Rightarrow> Inr (s\<lparr>routing_table := tbl\<rparr>)))"

subsection \<open>The loop of \<^verbatim>\<open>main\<close>\<close>

text \<open>
  What the loop of \<^verbatim>\<open>main\<close> and the periodic timer do to the router, one event at a
  time. An exception ends the loop.
\<close>

datatype server_event =
  Resolve int "entry list" real
| CheckTimeout real
| CheckGarbage real
| Periodic
| Triggered

definition apply_server_event :: "server \<Rightarrow> server_event \<Rightarrow> error + server" where
  "apply_server_event s ev =
     (case ev of
        Resolve src_id table_entries now \<Rightarrow> Inr (resolve_update s (src_id, table_entries) now)
      | CheckTimeout now \<Rightarrow> check_timeout s now
      | CheckGarbage now \<Rightarrow> check_garbage s now
      | Periodic \<Rightarrow> Inr (fst (periodic_update s))
      | Triggered \<Rightarrow> Inr (fst (triggered_update s)))"

fun apply_server_events :: "server \<Rightarrow> server_event list \<Rightarrow> error + server" where
  "apply_server_events s [] = Inr s"
| "apply_server_events s (ev # evs) =
     (case apply_server_event s ev of Inl e \<Rightarrow> Inl e | Inr s' \<Rightarrow> apply_server_events s' evs)"

section \<open>Predicates of the statements\<close>

text \<open>A record of twenty bytes that decodes to the pair \<open>r\<close>.\<close>

definition rte_ok :: "bytes \<Rightarrow> int \<times> int \<Rightarrow> bool" where
  "rte_ok b r = (length b = 20 \<and> unpack_12xII b = Inr r)"

text \<open>Every stored metric is at most \<^const>\<open>INFINITY\<close>; every stored metric is at least 0.\<close>

definition metrics_bounded :: "table \<Rightarrow> bool" where
  "metrics_bounded tbl = (\<forall>(dest_id, next_hop_id, m, timestamp, garbage) \<in> set tbl. m \<le> INFINITY)"

definition metrics_nonneg :: "table \<Rightarrow> bool" where
  "metrics_nonneg tbl = (\<forall>(dest_id, next_hop_id, m, timestamp, garbage) \<in> set tbl. 0 \<le> m)"

definition link_costs_nonneg :: "output_entry list \<Rightarrow> bool" where
  "link_costs_nonneg outs = (\<forall>(port, cost, neighbor_id) \<in> set outs. 0 \<le> cost)"

text \<open>
  A direct call of \<^verbatim>\<open>process_update\<close> is given metrics that are not negative, as
  the unsigned field of the wire format has them.
\<close>

definition advertises_nonneg :: "event \<Rightarrow> bool" where
  "advertises_nonneg ev =
     (case ev of Update sender advertised now \<Rightarrow> (\<forall>(d, m) \<in> set advertised. 0 \<le> m)
      | Datagram datagram now \<Rightarrow> True
      | Sweep now \<Rightarrow> True)"

text \<open>The components of a routing-table value.\<close>

definition route_next_hop :: "route \<Rightarrow> int" where
  "route_next_hop v = (case v of (next_hop_id, m, timestamp, garbage) \<Rightarrow> next_hop_id)"

definition route_metric :: "route \<Rightarrow> int" where
  "route_metric v = (case v of (next_hop_id, m, timestamp, garbage) \<Rightarrow> m)"

text \<open>The table without its timestamps: destination, next hop, metric and garbage flag.\<close>

definition strip_times :: "table \<Rightarrow> (int \<times> int \<times> int \<times> bool) list" where
  "strip_times tbl = map (\<lambda>(d, nh, m, ts, g). (d, nh, m, g)) tbl"

text \<open>
  An advertised pair has nothing left to change in a table: it names the router itself,
  or the stored route is through the sender at the very metric the pair leads to, or it is
  through another router and the pair is no better, or there is no route and the pair leads
  to \<^const>\<open>INFINITY\<close>.
\<close>

definition settled :: "int \<Rightarrow> int \<Rightarrow> int \<Rightarrow> table \<Rightarrow> int \<times> int \<Rightarrow> bool" where
  "settled self_id sender base tbl adv =
     (case adv of (d, m) \<Rightarrow>
        d = self_id \<or>
        (case map_of tbl d of
           None \<Rightarrow> \<not> min (base + m) INFINITY < INFINITY
         | Some (nh, cm, ts, g) \<Rightarrow>
             if nh = sender then min (base + m) INFINITY = cm
             else \<not> min (base + m) INFINITY < cm))"

text \<open>
  The table of \<^verbatim>\<open>1Server.py\<close> is a dictionary (no key twice) that holds every entry
  under its own \<open>dst_id\<close>, as \<^verbatim>\<open>self.routing_table[entry.dst_id] = entry\<close> stores it.
\<close>

definition table_wf :: "routing_table \<Rightarrow> bool" where
  "table_wf tbl = (distinct (map fst tbl) \<and> (\<forall>(k, e) \<in> set tbl. dst_id e = k))"

definition entries_in_range :: "routing_table \<Rightarrow> bool" where
  "entries_in_range tbl = (\<forall>(k, e) \<in> set tbl. 0 \<le> metric e \<and> metric e \<le> INFINITY)"

definition server_costs_nonneg :: "output_interface list \<Rightarrow> bool" where
  "server_costs_nonneg outs = (\<forall>output \<in> set outs. 0 \<le> link_cost output)"

text \<open>
  The entries a decoded packet holds have metrics in \<open>[0, INFINITY]\<close>: the spec's decoder
  drops every record outside this range.
\<close>

definition advertised_in_range :: "server_event \<Rightarrow> bool" where
  "advertised_in_range ev =
     (case ev of
        Resolve src_id table_entries now \<Rightarrow>
          (\<forall>e \<in> set table_entries. 0 \<le> metric e \<and> metric e \<le> INFINITY)
      | CheckTimeout now \<Rightarrow> True
      | CheckGarbage now \<Rightarrow> True
      | Periodic \<Rightarrow> True
      | Triggered \<Rightarrow> True)"

text \<open>The table without its two clock fields.\<close>

definition strip_clocks :: "routing_table \<Rightarrow> routing_table" where
  "strip_clocks tbl = map (\<lambda>(k, e). (k, e\<lparr>timeout := 0, garbage_time := 0\<rparr>)) tbl"

text \<open>
  A received entry has nothing left to change in a table: \<^verbatim>\<open>resolve_update\<close> would
  take none of its replacing branches for it.
\<close>

definition srv_settled ::
  "int \<Rightarrow> output_interface list \<Rightarrow> real \<Rightarrow> int \<Rightarrow> real \<Rightarrow> routing_table \<Rightarrow> entry \<Rightarrow> bool" where
  "srv_settled self_id outs tt src_id now tbl received =
     (dst_id received = self_id \<or>
      (case map_of tbl (dst_id received) of
         None \<Rightarrow> metric (add_link_cost outs src_id received) = INFINITY
       | Some current \<Rightarrow>
           \<not> (garbage_flag current \<and> metric (add_link_cost outs src_id received) < INFINITY) \<and>
           (if metric (add_link_cost outs src_id received) = metric current
            then next_hop received = next_hop current \<or> \<not> now \<ge> timeout current + tt / 2
            else \<not> ((next_hop current = src_id \<and>
                     metric (add_link_cost outs src_id received) \<noteq> metric current)
                    \<or> metric (add_link_cost outs src_id received) < metric current))))"

text \<open>
  Router A of the spec's scenarios, in both programs: id 1, one neighbour B with id 2
  behind a link of cost 5.
\<close>

definition router_A :: router where
  "router_A =
     \<lparr>router_id = 1, outputs = [(5002, 5, 2)],
      routes = [(2, (2, 5, Finite 0, False)), (1, (1, 0, PosInf, False))],
      route_timeout = 180, garbage_collection_timeout = 120\<rparr>"

definition server_A :: server where
  "server_A =
     \<lparr>server_id = 1,
      server_outputs = [\<lparr>peer_id = 2, link_cost = 5, peer_port_no = 5002\<rparr>],
      timeout_time = 180, garbage_period = 120, routing_table = [],
      triggered_update_call = False\<rparr>"





section \<open>Properties of the packet codec\<close>

lemma uint_byte: "uint (word_of_int k :: byte) = k mod 256"
  by (simp add: uint_word_of_int)

lemma unpack_pack_I:
  assumes "0 \<le> n" "n \<le> 4294967295"
  shows "unpack_I (word_of_int (n div 16777216)) (word_of_int (n div 65536))
           (word_of_int (n div 256)) (word_of_int n) = n"
proof -
  define a where "a = n div 256"
  define b where "b = a div 256"
  define c where "c = b div 256"
  have b: "n div 65536 = b" unfolding b_def a_def by (simp add: zdiv_zmult2_eq)
  have c: "n div 16777216 = c" unfolding c_def b_def a_def by (simp add: zdiv_zmult2_eq)
  have c256: "c mod 256 = c" using assms unfolding c [symmetric] by simp
  have "n = a * 256 + n mod 256" unfolding a_def by simp
  moreover have "a = b * 256 + a mod 256" unfolding b_def by simp
  moreover have "b = c * 256 + b mod 256" unfolding c_def by simp
  ultimately have "n = c * 16777216 + (b mod 256) * 65536 + (a mod 256) * 256 + n mod 256"
    by linarith
  then show ?thesis
    unfolding unpack_I_def uint_byte b c c256 a_def [symmetric] by simp
qed

lemma unpack_pack_H:
  assumes "0 \<le> n" "n \<le> 65535"
  shows "unpack_H (word_of_int (n div 256)) (word_of_int n) = n"
proof -
  have a: "(n div 256) mod 256 = n div 256" using assms by simp
  have "n = (n div 256) * 256 + n mod 256" by simp
  then show ?thesis unfolding unpack_H_def uint_byte a by simp
qed

lemma unpack_I_nonneg: "0 \<le> unpack_I a b c d"
  by (simp add: unpack_I_def)

lemma create_rte_ok:
  assumes "0 \<le> d" "d \<le> 4294967295" "0 \<le> m" "m \<le> 4294967295"
  shows "\<exists>b. create_rte d m = Inr b \<and> rte_ok b (d, m)"
  using assms
  by (simp add: create_rte_def pack_12xII_def pack_I_def rte_ok_def unpack_12xII_def
      unpack_pack_I nth_append eval_nat_numeral)

lemma append_rtes_ok:
  assumes "\<forall>(d, m) \<in> set rs. 0 \<le> d \<and> d \<le> 4294967295 \<and> 0 \<le> m \<and> m \<le> 4294967295"
  shows "\<exists>bs. append_rtes packet rs = Inr (packet @ concat bs) \<and> list_all2 rte_ok bs rs"
  using assms
proof (induction rs arbitrary: packet)
  case Nil
  then show ?case by simp
next
  case (Cons r rs)
  obtain d m where r: "r = (d, m)" by (cases r)
  from Cons.prems r obtain b where b: "create_rte d m = Inr b" "rte_ok b (d, m)"
    using create_rte_ok [of d m] by auto
  from Cons.IH [of "packet @ b"] Cons.prems obtain bs where
    bs: "append_rtes (packet @ b) rs = Inr ((packet @ b) @ concat bs)" "list_all2 rte_ok bs rs"
    by auto
  show ?case
    by (rule exI [of _ "b # bs"]) (simp add: r b bs)
qed

lemma slice_chunks:
  assumes "list_all2 rte_ok bs rs" "i < length rs"
  shows "slice (h @ concat bs) (length h + i * 20) (length h + i * 20 + 20) = bs ! i"
  using assms
proof (induction bs rs arbitrary: i rule: list_all2_induct)
  case Nil
  then show ?case by simp
next
  case (Cons b bs r rs)
  have lb: "length b = 20" using Cons.hyps(1) by (simp add: rte_ok_def)
  show ?case
  proof (cases i)
    case 0
    then show ?thesis by (simp add: slice_def lb)
  next
    case (Suc j)
    with Cons.prems have "j < length rs" by simp
    from Cons.IH [OF this] show ?thesis
      by (simp add: slice_def Suc lb)
  qed
qed

lemma parse_rtes_chunks:
  assumes "list_all2 rte_ok bs rs" "length h = HEADER_SIZE"
    and "\<forall>i \<in> set is. i < length rs"
    and "\<forall>(d, m) \<in> set rs. 0 \<le> m \<and> m \<le> INFINITY"
  shows "parse_rtes (h @ concat bs) is acc = Inr (acc @ map (\<lambda>i. rs ! i) is)"
  using assms(3)
proof (induction "is" arbitrary: acc)
  case Nil
  then show ?case by simp
next
  case (Cons i "is")
  then have i: "i < length rs" by simp
  have sl: "slice (h @ concat bs) (HEADER_SIZE + i * RTE_SIZE) (HEADER_SIZE + i * RTE_SIZE + RTE_SIZE) = bs ! i"
    using slice_chunks [OF assms(1) i, of h] assms(2) by (simp add: RTE_SIZE_def)
  have ok: "rte_ok (bs ! i) (rs ! i)"
    using assms(1) i by (simp add: list_all2_conv_all_nth)
  obtain d m where r: "rs ! i = (d, m)" by (cases "rs ! i")
  have "(d, m) \<in> set rs" using i r by (metis nth_mem)
  with assms(4) have m: "0 \<le> m" "m \<le> INFINITY" by auto
  from Cons.IH [of "acc @ [(d, m)]"] Cons.prems
  have "parse_rtes (h @ concat bs) is (acc @ [(d, m)]) = Inr (acc @ (d, m) # map (\<lambda>i. rs ! i) is)"
    by simp
  with ok r m sl show ?case
    by (simp add: rte_ok_def)
qed

lemma create_header_ok:
  assumes "0 \<le> sid" "sid \<le> 65535"
  shows "create_header sid COMMAND_RESPONSE VERSION = Inr [2, 2, word_of_int (sid div 256), word_of_int sid]"
  using assms
  by (simp add: create_header_def pack_BBH_def pack_B_def pack_H_def COMMAND_RESPONSE_def VERSION_def)

lemma take_header:
  assumes "HEADER_SIZE \<le> length data"
  shows "take HEADER_SIZE data = [data ! 0, data ! 1, data ! 2, data ! 3]"
proof -
  from assms obtain a b c d rest where "data = a # b # c # d # rest"
    by (cases data; cases "tl data"; cases "tl (tl data)"; cases "tl (tl (tl data))")
       (auto simp: HEADER_SIZE_def)
  then show ?thesis by (simp add: HEADER_SIZE_def)
qed

lemma parse_rtes_total:
  assumes "\<forall>i \<in> set is. HEADER_SIZE + i * RTE_SIZE + RTE_SIZE \<le> length data"
    and "\<forall>(d, m) \<in> set acc. 0 \<le> m \<and> m \<le> INFINITY"
  shows "\<exists>rs. parse_rtes data is acc = Inr rs \<and>
           (\<forall>(d, m) \<in> set rs. 0 \<le> m \<and> m \<le> INFINITY)"
  using assms
proof (induction "is" arbitrary: acc)
  case Nil
  then show ?case by simp
next
  case (Cons i "is")
  let ?s = "slice data (HEADER_SIZE + i * RTE_SIZE) (HEADER_SIZE + i * RTE_SIZE + RTE_SIZE)"
  have "HEADER_SIZE + i * RTE_SIZE + RTE_SIZE \<le> length data" using Cons.prems(1) by simp
  then have "length ?s = 20" unfolding slice_def RTE_SIZE_def by simp
  then obtain d m where u: "unpack_12xII ?s = Inr (d, m)"
    by (simp add: unpack_12xII_def)
  show ?case
  proof (cases "0 \<le> m \<and> m \<le> INFINITY")
    case True
    with Cons.prems have "\<forall>(d, m) \<in> set (acc @ [(d, m)]). 0 \<le> m \<and> m \<le> INFINITY" by auto
    from Cons.IH [OF _ this] Cons.prems(1) u True show ?thesis by simp
  next
    case False
    from Cons.IH [OF _ Cons.prems(2)] Cons.prems(1) u False show ?thesis by auto
  qed
qed

lemma rte_count_bound:
  assumes "HEADER_SIZE \<le> length data" "i < (length data - HEADER_SIZE) div RTE_SIZE"
  shows "HEADER_SIZE + i * RTE_SIZE + RTE_SIZE \<le> length data"
proof -
  from assms(2) have "Suc i \<le> (length data - HEADER_SIZE) div RTE_SIZE" by simp
  then have "Suc i * RTE_SIZE \<le> length data - HEADER_SIZE"
    by (simp add: RTE_SIZE_def less_eq_div_iff_mult_less_eq)
  with assms(1) show ?thesis by simp
qed

lemma parse_cases:
  "parse data =
     (if length data < HEADER_SIZE \<or> uint (data ! 1) \<noteq> VERSION then Inr None
      else Inr (Some (uint (data ! 0), VERSION, unpack_H (data ! 2) (data ! 3),
             projr (parse_rtes data [0..<(length data - HEADER_SIZE) div RTE_SIZE] []))))"
proof (cases "length data < HEADER_SIZE")
  case True
  then show ?thesis by (simp add: parse_def)
next
  case False
  then have len: "HEADER_SIZE \<le> length data" by simp
  have "\<forall>i \<in> set [0..<(length data - HEADER_SIZE) div RTE_SIZE].
          HEADER_SIZE + i * RTE_SIZE + RTE_SIZE \<le> length data"
    using rte_count_bound [OF len] by simp
  from parse_rtes_total [OF this, of "[]"] obtain rs where
    "parse_rtes data [0..<(length data - HEADER_SIZE) div RTE_SIZE] [] = Inr rs"
    by auto
  with False show ?thesis
    by (simp add: parse_def take_header [OF len])
qed

lemma parse_routes_in_range:
  assumes "parse data = Inr (Some (cmd, ver, sender, rs))"
  shows "\<forall>(d, m) \<in> set rs. 0 \<le> m \<and> m \<le> INFINITY"
proof -
  from assms have len: "HEADER_SIZE \<le> length data"
    by (auto simp: parse_def split: if_splits)
  have "\<forall>i \<in> set [0..<(length data - HEADER_SIZE) div RTE_SIZE].
          HEADER_SIZE + i * RTE_SIZE + RTE_SIZE \<le> length data"
    using rte_count_bound [OF len] by simp
  from parse_rtes_total [OF this, of "[]"] obtain rs2 where
    rs: "parse_rtes data [0..<(length data - HEADER_SIZE) div RTE_SIZE] [] = Inr rs2"
      "\<forall>(d, m) \<in> set rs2. 0 \<le> m \<and> m \<le> INFINITY"
    by auto
  from assms rs(1) have "rs = rs2"
    by (auto simp: parse_def take_header [OF len] split: if_splits)
  with rs(2) show ?thesis by simp
qed

lemma slice_take:
  assumes "e \<le> n"
  shows "slice (take n data) s e = slice data s e"
proof -
  have "min (e - s) (n - s) = e - s" using assms by simp
  then show ?thesis by (simp add: slice_def drop_take)
qed

lemma parse_rtes_take:
  assumes "\<forall>i \<in> set is. HEADER_SIZE + i * RTE_SIZE + RTE_SIZE \<le> n"
  shows "parse_rtes (take n data) is acc = parse_rtes data is acc"
  using assms
proof (induction "is" arbitrary: acc)
  case Nil
  then show ?case by simp
next
  case (Cons i "is")
  then have "HEADER_SIZE + i * RTE_SIZE + RTE_SIZE \<le> n" by simp
  then have eq: "slice (take n data) (HEADER_SIZE + i * RTE_SIZE) (HEADER_SIZE + i * RTE_SIZE + RTE_SIZE)
      = slice data (HEADER_SIZE + i * RTE_SIZE) (HEADER_SIZE + i * RTE_SIZE + RTE_SIZE)"
    by (rule slice_take)
  have ih: "\<And>acc. parse_rtes (take n data) is acc = parse_rtes data is acc"
    using Cons by simp
  show ?case
    by (simp only: parse_rtes.simps Let_def eq ih)
qed

lemma parse_ignores_tail:
  assumes "HEADER_SIZE \<le> length data"
  shows "parse (take (HEADER_SIZE + RTE_SIZE * ((length data - HEADER_SIZE) div RTE_SIZE)) data)
         = parse data"
proof -
  define k where "k = (length data - HEADER_SIZE) div RTE_SIZE"
  define n where "n = HEADER_SIZE + RTE_SIZE * k"
  have "RTE_SIZE * k \<le> length data - HEADER_SIZE"
    unfolding k_def by simp
  with assms have n_le: "n \<le> length data" unfolding n_def by simp
  then have len: "length (take n data) = n" by simp
  have cnt: "(n - HEADER_SIZE) div RTE_SIZE = k"
    unfolding n_def by (simp add: RTE_SIZE_def)
  have hd: "take HEADER_SIZE (take n data) = take HEADER_SIZE data"
    unfolding n_def by (simp add: min_def)
  have "\<forall>i \<in> set [0..<k]. HEADER_SIZE + i * RTE_SIZE + RTE_SIZE \<le> n"
    unfolding n_def by (auto simp: RTE_SIZE_def)
  from parse_rtes_take [OF this]
  have rt: "parse_rtes (take n data) [0..<k] [] = parse_rtes data [0..<k] []" .
  have "parse (take n data) = parse data"
    using assms unfolding parse_def len cnt hd Let_def rt k_def [symmetric]
    by (simp add: n_def)
  then show ?thesis unfolding n_def k_def .
qed

lemma create_response_parse:
  assumes "0 \<le> sender_id" "sender_id \<le> 65535"
    and "\<forall>(d, m) \<in> set entries. 0 \<le> d \<and> d \<le> 4294967295 \<and> 0 \<le> m \<and> m \<le> INFINITY"
  shows "\<exists>packet. create_response sender_id entries = Inr packet \<and>
           parse packet = Inr (Some (COMMAND_RESPONSE, VERSION, sender_id, entries))"
proof -
  let ?h = "[2, 2, word_of_int (sender_id div 256), word_of_int sender_id] :: bytes"
  have "\<forall>(d, m) \<in> set entries. 0 \<le> d \<and> d \<le> 4294967295 \<and> 0 \<le> m \<and> m \<le> 4294967295"
    using assms(3) by (auto simp: INFINITY_def)
  from append_rtes_ok [OF this, of ?h] obtain bs where
    bs: "append_rtes ?h entries = Inr (?h @ concat bs)" "list_all2 rte_ok bs entries"
    by blast
  have len: "length (concat bs) = 20 * length entries"
    using bs(2) by (induction bs entries rule: list_all2_induct) (simp_all add: rte_ok_def)
  have m: "\<forall>(d, m) \<in> set entries. 0 \<le> m \<and> m \<le> INFINITY" using assms(3) by auto
  have "parse_rtes (?h @ concat bs) [0..<length entries] []
        = Inr ([] @ map (\<lambda>i. entries ! i) [0..<length entries])"
    by (rule parse_rtes_chunks [OF bs(2) _ _ m]) (simp_all add: HEADER_SIZE_def)
  then have pr: "parse_rtes (?h @ concat bs) [0..<length entries] [] = Inr entries"
    by (simp add: map_nth)
  have "parse (?h @ concat bs) = Inr (Some (COMMAND_RESPONSE, VERSION, sender_id, entries))"
    using pr assms(1,2)
    by (simp add: parse_def HEADER_SIZE_def RTE_SIZE_def len unpack_pack_H VERSION_def
        COMMAND_RESPONSE_def)
  then show ?thesis
    by (simp add: create_response_def create_header_ok [OF assms(1,2)] bs(1))
qed

section \<open>Properties of the routing engine of \<^verbatim>\<open>ai_router.py\<close>\<close>

lemma set_update_cases:
  assumes "x \<in> set (AList.update k v al)"
  shows "x = (k, v) \<or> x \<in> set al"
  using assms by (induction al) (auto split: if_splits)

lemma process_route_unfold:
  assumes "nm = min (base + m) INFINITY"
  shows "process_route self_id sender base now (d, m) (tbl, b) =
     (if d = self_id then (tbl, b)
      else
        (case map_of tbl d of
           Some (current_next_hop, current_metric, timestamp, garbage) \<Rightarrow>
             if current_next_hop = sender then
               if nm \<noteq> current_metric then
                 if nm \<ge> INFINITY \<and> current_metric < INFINITY
                 then (AList.update d (sender, INFINITY, Finite now, True) tbl, True)
                 else (AList.update d (sender, nm, Finite now, garbage) tbl, True)
               else (AList.update d (sender, current_metric, Finite now, garbage) tbl, b)
             else if nm < current_metric
             then (AList.update d (sender, nm, Finite now, False) tbl, True)
             else (tbl, b)
         | None \<Rightarrow>
             if nm < INFINITY
             then (AList.update d (sender, nm, Finite now, False) tbl, True)
             else (tbl, b)))"
  unfolding process_route_def Let_def assms prod.case ..

lemma process_route_cases:
  obtains (same) "fst (process_route self_id sender base now (d, m) (tbl, b)) = tbl"
  | (upd) m' g where
      "fst (process_route self_id sender base now (d, m) (tbl, b))
         = AList.update d (sender, m', Finite now, g) tbl"
      "m' = INFINITY \<or> m' = min (base + m) INFINITY"
proof -
  define nm where "nm = min (base + m) INFINITY"
  note pr = process_route_unfold [OF nm_def]
  note upd' = upd [folded nm_def]
  show ?thesis
  proof (cases "d = self_id")
    case True
    then show ?thesis using same by (simp add: pr)
  next
    case False
    show ?thesis
    proof (cases "map_of tbl d")
      case None
      then show ?thesis using False same upd'
        by (cases "nm < INFINITY") (simp_all add: pr)
    next
      case (Some cur)
      obtain nh cm ts g where cur: "cur = (nh, cm, ts, g)" by (cases cur)
      show ?thesis
      proof (cases "nh = sender")
        case True
        show ?thesis
        proof (cases "nm = cm")
          case eq: True
          then show ?thesis using False Some cur True upd' [of cm g] by (simp add: pr)
        next
          case ne: False
          then show ?thesis using False Some cur True upd' [of INFINITY True] upd' [of nm g]
            by (cases "nm \<ge> INFINITY \<and> cm < INFINITY") (simp_all add: pr)
        qed
      next
        case nsame: False
        then show ?thesis using False Some cur same upd' [of nm False]
          by (cases "nm < cm") (simp_all add: pr)
      qed
    qed
  qed
qed

lemma set_delete_subset: "set (AList.delete k al) \<subseteq> set al"
  by (auto simp: AList.delete_eq)

lemma find_neighbor_Some:
  assumes "find_neighbor outs sender = Some (p, c, n)"
  shows "(p, c, n) \<in> set outs \<and> n = sender"
  using assms by (induction outs sender rule: find_neighbor.induct) (auto split: if_splits)

lemma find_neighbor_None:
  "find_neighbor outs sender = None \<longleftrightarrow> (\<forall>(p, c, n) \<in> set outs. n \<noteq> sender)"
  by (induction outs sender rule: find_neighbor.induct) auto

lemma process_route_distinct:
  assumes "distinct (map fst tbl)"
  shows "distinct (map fst (fst (process_route self_id sender base now adv (tbl, b))))"
proof -
  obtain d m where adv: "adv = (d, m)" by (cases adv)
  show ?thesis unfolding adv
    by (rule process_route_cases [of self_id sender base now d m tbl b])
       (simp_all add: assms distinct_update)
qed

lemma metrics_bounded_update:
  assumes "metrics_bounded tbl" "m' \<le> INFINITY"
  shows "metrics_bounded (AList.update d (nh, m', ts, g) tbl)"
  using assms unfolding metrics_bounded_def by (auto dest!: set_update_cases)

lemma metrics_nonneg_update:
  assumes "metrics_nonneg tbl" "0 \<le> m'"
  shows "metrics_nonneg (AList.update d (nh, m', ts, g) tbl)"
  using assms unfolding metrics_nonneg_def by (auto dest!: set_update_cases)

lemma process_route_bounded:
  assumes "metrics_bounded tbl"
  shows "metrics_bounded (fst (process_route self_id sender base now adv (tbl, b)))"
proof -
  obtain d m where adv: "adv = (d, m)" by (cases adv)
  show ?thesis unfolding adv
  proof (rule process_route_cases [of self_id sender base now d m tbl b])
    fix m' g
    assume "fst (process_route self_id sender base now (d, m) (tbl, b))
         = AList.update d (sender, m', Finite now, g) tbl"
      and "m' = INFINITY \<or> m' = min (base + m) INFINITY"
    moreover from this(2) have "m' \<le> INFINITY" by auto
    ultimately show "metrics_bounded (fst (process_route self_id sender base now (d, m) (tbl, b)))"
      using metrics_bounded_update [OF assms] by simp
  qed (simp add: assms)
qed

lemma process_route_nonneg:
  assumes "metrics_nonneg tbl" "0 \<le> base" "0 \<le> snd adv"
  shows "metrics_nonneg (fst (process_route self_id sender base now adv (tbl, b)))"
proof -
  obtain d m where adv: "adv = (d, m)" by (cases adv)
  have m: "0 \<le> m" using assms(3) adv by simp
  show ?thesis unfolding adv
  proof (rule process_route_cases [of self_id sender base now d m tbl b])
    fix m' g
    assume "fst (process_route self_id sender base now (d, m) (tbl, b))
         = AList.update d (sender, m', Finite now, g) tbl"
      and "m' = INFINITY \<or> m' = min (base + m) INFINITY"
    moreover from this(2) assms(2) m have "0 \<le> m'" by (auto simp: INFINITY_def)
    ultimately show "metrics_nonneg (fst (process_route self_id sender base now (d, m) (tbl, b)))"
      using metrics_nonneg_update [OF assms(1)] by simp
  qed (simp add: assms)
qed

lemma fold_process_route_inv:
  assumes "\<And>adv tbl b. adv \<in> set advertised \<Longrightarrow> P tbl \<Longrightarrow>
             P (fst (process_route self_id sender base now adv (tbl, b)))"
    and "P tbl"
  shows "P (fst (fold (process_route self_id sender base now) advertised (tbl, b)))"
  using assms
proof (induction advertised arbitrary: tbl b)
  case Nil
  then show ?case by simp
next
  case (Cons adv advertised)
  obtain tbl' b' where st: "process_route self_id sender base now adv (tbl, b) = (tbl', b')"
    by (cases "process_route self_id sender base now adv (tbl, b)")
  have "P tbl'" using Cons.prems(1) [of adv tbl b] Cons.prems(2) st by simp
  moreover have "\<And>adv tbl b. adv \<in> set advertised \<Longrightarrow> P tbl \<Longrightarrow>
             P (fst (process_route self_id sender base now adv (tbl, b)))"
    using Cons.prems(1) by simp
  ultimately have "P (fst (fold (process_route self_id sender base now) advertised (tbl', b')))"
    by (rule Cons.IH [rotated])
  then show ?case by (simp add: st)
qed

lemma routes_process_update:
  "routes (fst (process_update r sender advertised now)) =
     (case find_neighbor (outputs r) sender of
        None \<Rightarrow> routes r
      | Some (p, base, n) \<Rightarrow>
          fst (fold (process_route (router_id r) sender base now) advertised (routes r, False)))"
  by (simp add: process_update_def split: option.split prod.split)

lemma config_process_update:
  "router_id (fst (process_update r sender advertised now)) = router_id r"
  "outputs (fst (process_update r sender advertised now)) = outputs r"
  "route_timeout (fst (process_update r sender advertised now)) = route_timeout r"
  "garbage_collection_timeout (fst (process_update r sender advertised now))
     = garbage_collection_timeout r"
  by (simp_all add: process_update_def split: option.split prod.split)

lemma process_update_distinct:
  assumes "distinct (map fst (routes r))"
  shows "distinct (map fst (routes (fst (process_update r sender advertised now))))"
proof (cases "find_neighbor (outputs r) sender")
  case None
  then show ?thesis using assms by (simp add: routes_process_update)
next
  case (Some out)
  obtain p base n where out: "out = (p, base, n)" by (cases out)
  have "distinct (map fst (fst (fold (process_route (router_id r) sender base now) advertised (routes r, False))))"
    by (rule fold_process_route_inv [where P = "\<lambda>tbl. distinct (map fst tbl)"])
       (simp_all add: process_route_distinct assms)
  then show ?thesis by (simp add: routes_process_update Some out)
qed

lemma process_update_bounded:
  assumes "metrics_bounded (routes r)"
  shows "metrics_bounded (routes (fst (process_update r sender advertised now)))"
proof (cases "find_neighbor (outputs r) sender")
  case None
  then show ?thesis using assms by (simp add: routes_process_update)
next
  case (Some out)
  obtain p base n where out: "out = (p, base, n)" by (cases out)
  have "metrics_bounded (fst (fold (process_route (router_id r) sender base now) advertised (routes r, False)))"
    by (rule fold_process_route_inv [where P = metrics_bounded])
       (simp_all add: process_route_bounded assms)
  then show ?thesis by (simp add: routes_process_update Some out)
qed

lemma process_update_nonneg:
  assumes "metrics_nonneg (routes r)" "link_costs_nonneg (outputs r)"
    and "\<forall>(d, m) \<in> set advertised. 0 \<le> m"
  shows "metrics_nonneg (routes (fst (process_update r sender advertised now)))"
proof (cases "find_neighbor (outputs r) sender")
  case None
  then show ?thesis using assms(1) by (simp add: routes_process_update)
next
  case (Some out)
  obtain p base n where out: "out = (p, base, n)" by (cases out)
  from find_neighbor_Some [OF Some [unfolded out]] assms(2) have base: "0 \<le> base"
    unfolding link_costs_nonneg_def by auto
  have "metrics_nonneg (fst (fold (process_route (router_id r) sender base now) advertised (routes r, False)))"
  proof (rule fold_process_route_inv [where P = metrics_nonneg])
    fix adv tbl b
    assume "adv \<in> set advertised" "metrics_nonneg tbl"
    moreover from this(1) assms(3) have "0 \<le> snd adv" by auto
    ultimately show "metrics_nonneg (fst (process_route (router_id r) sender base now adv (tbl, b)))"
      using base by (intro process_route_nonneg)
  qed (rule assms(1))
  then show ?thesis by (simp add: routes_process_update Some out)
qed

subsection \<open>\<^verbatim>\<open>check_timeouts\<close>\<close>

lemma check_keys_step:
  assumes "dest_id \<noteq> self_id" "map_of tbl dest_id = Some (nh, m, ts, g)"
  shows "check_keys self_id rt gc now (dest_id # keys) (tbl, b) =
     (if g then
        if elapsed_gt now ts gc
        then check_keys self_id rt gc now keys (AList.delete dest_id tbl, True)
        else check_keys self_id rt gc now keys (tbl, b)
      else
        if elapsed_gt now ts rt
        then check_keys self_id rt gc now keys
               (AList.update dest_id (nh, INFINITY, Finite now, True) tbl, True)
        else check_keys self_id rt gc now keys (tbl, b))"
  using assms by simp

lemma check_keys_inv:
  assumes "\<And>tbl k. P tbl \<Longrightarrow> P (AList.delete k tbl)"
    and "\<And>tbl k nh. P tbl \<Longrightarrow> P (AList.update k (nh, INFINITY, Finite now, True) tbl)"
    and "P tbl"
    and "check_keys self_id rt gc now keys (tbl, b) = Inr (tbl', b')"
  shows "P tbl'"
  using assms(3,4)
proof (induction keys arbitrary: tbl b)
  case Nil
  then show ?case by simp
next
  case (Cons k keys)
  show ?case
  proof (cases "k = self_id")
    case True
    with Cons show ?thesis by simp
  next
    case False
    show ?thesis
    proof (cases "map_of tbl k")
      case None
      with False Cons.prems show ?thesis by simp
    next
      case (Some cur)
      obtain nh m ts g where cur: "cur = (nh, m, ts, g)" by (cases cur)
      note step = check_keys_step [OF False Some [unfolded cur], of rt gc now keys b]
      define tbl1 where "tbl1 =
        (if g then (if elapsed_gt now ts gc then AList.delete k tbl else tbl)
         else (if elapsed_gt now ts rt then AList.update k (nh, INFINITY, Finite now, True) tbl
               else tbl))"
      define b1 where "b1 =
        (if g then (if elapsed_gt now ts gc then True else b)
         else (if elapsed_gt now ts rt then True else b))"
      have "check_keys self_id rt gc now (k # keys) (tbl, b)
                 = check_keys self_id rt gc now keys (tbl1, b1)"
        unfolding step tbl1_def b1_def by simp
      with Cons.prems(2) have res: "check_keys self_id rt gc now keys (tbl1, b1) = Inr (tbl', b')"
        by simp
      have "P tbl1"
        unfolding tbl1_def using Cons.prems(1) assms(1,2) by simp
      from Cons.IH [OF this res] show ?thesis .
    qed
  qed
qed

text \<open>
  With every key of the list in the table and no key twice, the loop raises nothing, and
  each listed route other than the router's own meets its fate on its own timestamp.
\<close>

lemma check_keys_result:
  assumes "distinct keys" "\<forall>k \<in> set keys. k \<noteq> self_id \<longrightarrow> map_of tbl k \<noteq> None"
  shows "\<exists>tbl' b'. check_keys self_id rt gc now keys (tbl, b) = Inr (tbl', b') \<and>
           (\<forall>d. map_of tbl' d =
              (if d \<in> set keys \<and> d \<noteq> self_id then
                 (case map_of tbl d of
                    None \<Rightarrow> None
                  | Some (nh, m, ts, g) \<Rightarrow>
                      if g then (if elapsed_gt now ts gc then None else Some (nh, m, ts, g))
                      else (if elapsed_gt now ts rt then Some (nh, INFINITY, Finite now, True)
                            else Some (nh, m, ts, g)))
               else map_of tbl d))"
  using assms
proof (induction keys arbitrary: tbl b)
  case Nil
  then show ?case by simp
next
  case (Cons k keys)
  have dk: "distinct keys" and knot: "k \<notin> set keys" using Cons.prems(1) by simp_all
  show ?case
  proof (cases "k = self_id")
    case True
    from Cons.IH [OF dk, of tbl b] Cons.prems(2) True show ?thesis by auto
  next
    case False
    with Cons.prems(2) obtain cur where Some: "map_of tbl k = Some cur" by auto
    obtain nh m ts g where cur: "cur = (nh, m, ts, g)" by (cases cur)
    note step = check_keys_step [OF False Some [unfolded cur], of rt gc now keys b]
    define tbl1 where "tbl1 =
      (if g then (if elapsed_gt now ts gc then AList.delete k tbl else tbl)
       else (if elapsed_gt now ts rt then AList.update k (nh, INFINITY, Finite now, True) tbl
             else tbl))"
    define b1 where "b1 =
      (if g then (if elapsed_gt now ts gc then True else b)
       else (if elapsed_gt now ts rt then True else b))"
    have step': "check_keys self_id rt gc now (k # keys) (tbl, b)
                 = check_keys self_id rt gc now keys (tbl1, b1)"
      unfolding step tbl1_def b1_def by simp
    have other: "map_of tbl1 d = map_of tbl d" if "d \<noteq> k" for d
      using that unfolding tbl1_def by (simp add: update_conv' delete_conv')
    have at_k: "map_of tbl1 k =
        (if g then (if elapsed_gt now ts gc then None else Some (nh, m, ts, g))
         else (if elapsed_gt now ts rt then Some (nh, INFINITY, Finite now, True)
               else Some (nh, m, ts, g)))"
      unfolding tbl1_def using Some cur by (simp add: update_conv' delete_conv')
    have "map_of tbl1 k' \<noteq> None" if "k' \<in> set keys" "k' \<noteq> self_id" for k'
    proof -
      from that(1) knot have "k' \<noteq> k" by auto
      from other [OF this] Cons.prems(2) that show ?thesis by simp
    qed
    then have "\<forall>k' \<in> set keys. k' \<noteq> self_id \<longrightarrow> map_of tbl1 k' \<noteq> None"
      by blast
    from Cons.IH [OF dk this, of b1] obtain tbl' b' where
      res: "check_keys self_id rt gc now keys (tbl1, b1) = Inr (tbl', b')"
      and ch: "\<And>d. map_of tbl' d =
              (if d \<in> set keys \<and> d \<noteq> self_id then
                 (case map_of tbl1 d of
                    None \<Rightarrow> None
                  | Some (nh, m, ts, g) \<Rightarrow>
                      if g then (if elapsed_gt now ts gc then None else Some (nh, m, ts, g))
                      else (if elapsed_gt now ts rt then Some (nh, INFINITY, Finite now, True)
                            else Some (nh, m, ts, g)))
               else map_of tbl1 d)"
      by blast
    have "map_of tbl' d =
              (if d \<in> set (k # keys) \<and> d \<noteq> self_id then
                 (case map_of tbl d of
                    None \<Rightarrow> None
                  | Some (nh, m, ts, g) \<Rightarrow>
                      if g then (if elapsed_gt now ts gc then None else Some (nh, m, ts, g))
                      else (if elapsed_gt now ts rt then Some (nh, INFINITY, Finite now, True)
                            else Some (nh, m, ts, g)))
               else map_of tbl d)" for d
    proof (cases "d = k")
      case True
      then show ?thesis using ch [of k] knot at_k False Some cur by simp
    next
      case d: False
      then show ?thesis using ch [of d] other [OF d] by simp
    qed
    with res step' show ?thesis by simp
  qed
qed

lemma check_timeouts_result:
  assumes "distinct (map fst (routes r))"
  shows "\<exists>r' b'. check_timeouts r now = Inr (r', b') \<and>
           router_id r' = router_id r \<and> outputs r' = outputs r \<and>
           route_timeout r' = route_timeout r \<and>
           garbage_collection_timeout r' = garbage_collection_timeout r \<and>
           (\<forall>d. map_of (routes r') d =
              (if d \<noteq> router_id r then
                 (case map_of (routes r) d of
                    None \<Rightarrow> None
                  | Some (nh, m, ts, g) \<Rightarrow>
                      if g then (if elapsed_gt now ts (garbage_collection_timeout r) then None
                                 else Some (nh, m, ts, g))
                      else (if elapsed_gt now ts (route_timeout r)
                            then Some (nh, INFINITY, Finite now, True)
                            else Some (nh, m, ts, g)))
               else map_of (routes r) d))"
proof -
  have "\<forall>k \<in> set (map fst (routes r)). k \<noteq> router_id r \<longrightarrow> map_of (routes r) k \<noteq> None"
    by (auto simp: map_of_eq_None_iff)
  from check_keys_result [OF assms this, of "route_timeout r" "garbage_collection_timeout r" now False]
  obtain tbl' b' where
    res: "check_keys (router_id r) (route_timeout r) (garbage_collection_timeout r) now
            (map fst (routes r)) (routes r, False) = Inr (tbl', b')"
    and ch: "\<And>d. map_of tbl' d =
              (if d \<in> set (map fst (routes r)) \<and> d \<noteq> router_id r then
                 (case map_of (routes r) d of
                    None \<Rightarrow> None
                  | Some (nh, m, ts, g) \<Rightarrow>
                      if g then (if elapsed_gt now ts (garbage_collection_timeout r) then None
                                 else Some (nh, m, ts, g))
                      else (if elapsed_gt now ts (route_timeout r)
                            then Some (nh, INFINITY, Finite now, True)
                            else Some (nh, m, ts, g)))
               else map_of (routes r) d)"
    by blast
  have "map_of tbl' d =
              (if d \<noteq> router_id r then
                 (case map_of (routes r) d of
                    None \<Rightarrow> None
                  | Some (nh, m, ts, g) \<Rightarrow>
                      if g then (if elapsed_gt now ts (garbage_collection_timeout r) then None
                                 else Some (nh, m, ts, g))
                      else (if elapsed_gt now ts (route_timeout r)
                            then Some (nh, INFINITY, Finite now, True)
                            else Some (nh, m, ts, g)))
               else map_of (routes r) d)" for d
  proof (cases "d \<in> set (map fst (routes r))")
    case True
    then show ?thesis using ch [of d] by simp
  next
    case False
    then have "map_of (routes r) d = None" by (simp add: map_of_eq_None_iff)
    then show ?thesis using ch [of d] False by auto
  qed
  then show ?thesis
    by (simp add: check_timeouts_def res)
qed

lemma check_timeouts_inv:
  assumes "\<And>tbl k. P tbl \<Longrightarrow> P (AList.delete k tbl)"
    and "\<And>tbl k nh. P tbl \<Longrightarrow> P (AList.update k (nh, INFINITY, Finite now, True) tbl)"
    and "P (routes r)"
    and "check_timeouts r now = Inr (r', b')"
  shows "P (routes r')"
proof -
  from assms(4) obtain tbl' where
    res: "check_keys (router_id r) (route_timeout r) (garbage_collection_timeout r) now
            (map fst (routes r)) (routes r, False) = Inr (tbl', b')"
    and r': "r' = r\<lparr>routes := tbl'\<rparr>"
    by (auto simp: check_timeouts_def split: sum.splits)
  from check_keys_inv [of P now, OF assms(1,2,3) res] show ?thesis
    by (simp add: r')
qed

lemma metrics_bounded_delete: "metrics_bounded tbl \<Longrightarrow> metrics_bounded (AList.delete k tbl)"
  using set_delete_subset [of k tbl] unfolding metrics_bounded_def by blast

lemma metrics_nonneg_delete: "metrics_nonneg tbl \<Longrightarrow> metrics_nonneg (AList.delete k tbl)"
  using set_delete_subset [of k tbl] unfolding metrics_nonneg_def by blast

subsection \<open>Invariants of the event loop\<close>

lemma check_timeouts_total:
  assumes "distinct (map fst (routes r))"
  shows "\<exists>r' b'. check_timeouts r now = Inr (r', b') \<and> outputs r' = outputs r \<and>
           distinct (map fst (routes r'))"
proof -
  from check_timeouts_result [OF assms, of now] obtain r' b' where
    res: "check_timeouts r now = Inr (r', b')" and out: "outputs r' = outputs r"
    by blast
  have "distinct (map fst (routes r'))"
    by (rule check_timeouts_inv [where P = "\<lambda>tbl. distinct (map fst tbl)", OF _ _ assms res])
       (simp_all add: distinct_delete distinct_update)
  with res out show ?thesis by blast
qed

lemma check_timeouts_bounded:
  assumes "metrics_bounded (routes r)" "check_timeouts r now = Inr (r', b')"
  shows "metrics_bounded (routes r')"
  by (rule check_timeouts_inv [where P = metrics_bounded, OF _ _ assms])
     (simp_all add: metrics_bounded_delete metrics_bounded_update)

lemma check_timeouts_nonneg:
  assumes "metrics_nonneg (routes r)" "check_timeouts r now = Inr (r', b')"
  shows "metrics_nonneg (routes r')"
  by (rule check_timeouts_inv [where P = metrics_nonneg, OF _ _ assms])
     (simp_all add: metrics_nonneg_delete metrics_nonneg_update INFINITY_def)

lemma handle_packet_cases:
  obtains (dropped) "handle_packet r data now = (r, False)"
  | (response) sender advertised where
      "handle_packet r data now = process_update r sender advertised now"
      "\<forall>(d, m) \<in> set advertised. 0 \<le> m \<and> m \<le> INFINITY"
proof (cases "parse data")
  case (Inl e)
  then show ?thesis using dropped by (simp add: handle_packet_def)
next
  case (Inr res)
  show ?thesis
  proof (cases res)
    case None
    with Inr show ?thesis using dropped by (simp add: handle_packet_def)
  next
    case (Some p)
    obtain cmd ver sender advertised where p: "p = (cmd, ver, sender, advertised)"
      by (cases p)
    from parse_routes_in_range [OF Inr [unfolded Some p]]
    have rng: "\<forall>(d, m) \<in> set advertised. 0 \<le> m \<and> m \<le> INFINITY" .
    show ?thesis
    proof (cases "cmd = COMMAND_RESPONSE")
      case True
      with Inr Some p have "handle_packet r data now = process_update r sender advertised now"
        by (simp add: handle_packet_def)
      with rng show ?thesis using response by blast
    next
      case False
      with Inr Some p show ?thesis using dropped by (simp add: handle_packet_def)
    qed
  qed
qed

lemma apply_event_bounded:
  assumes "metrics_bounded (routes r)" "apply_event r ev = Inr r'"
  shows "metrics_bounded (routes r')"
proof (cases ev)
  case (Update sender advertised now)
  with assms show ?thesis by (auto simp: apply_event_def process_update_bounded)
next
  case (Datagram datagram now)
  have "metrics_bounded (routes (fst (handle_packet r (recvfrom datagram) now)))"
    by (rule handle_packet_cases [of r "recvfrom datagram" now])
       (simp_all add: assms(1) process_update_bounded)
  with assms(2) Datagram show ?thesis by (auto simp: apply_event_def)
next
  case (Sweep now)
  with assms(2) obtain b' where "check_timeouts r now = Inr (r', b')"
    by (cases "check_timeouts r now") (auto simp: apply_event_def)
  from check_timeouts_bounded [OF assms(1) this] show ?thesis .
qed

lemma apply_event_invariant:
  assumes "distinct (map fst (routes r))" "metrics_nonneg (routes r)"
    and "link_costs_nonneg (outputs r)" "advertises_nonneg ev"
  shows "\<exists>r'. apply_event r ev = Inr r' \<and> distinct (map fst (routes r')) \<and>
           metrics_nonneg (routes r') \<and> link_costs_nonneg (outputs r')"
proof (cases ev)
  case (Update sender advertised now)
  with assms(4) have "\<forall>(d, m) \<in> set advertised. 0 \<le> m"
    by (simp add: advertises_nonneg_def)
  from process_update_nonneg [OF assms(2,3) this] process_update_distinct [OF assms(1)]
  show ?thesis using Update assms(3)
    by (simp add: apply_event_def config_process_update)
next
  case (Datagram datagram now)
  have "distinct (map fst (routes (fst (handle_packet r (recvfrom datagram) now)))) \<and>
        metrics_nonneg (routes (fst (handle_packet r (recvfrom datagram) now))) \<and>
        link_costs_nonneg (outputs (fst (handle_packet r (recvfrom datagram) now)))"
  proof (rule handle_packet_cases [of r "recvfrom datagram" now])
    fix sender advertised
    assume h: "handle_packet r (recvfrom datagram) now = process_update r sender advertised now"
      and rng: "\<forall>(d, m) \<in> set advertised. 0 \<le> m \<and> m \<le> INFINITY"
    from rng have "\<forall>(d, m) \<in> set advertised. 0 \<le> m" by auto
    from process_update_nonneg [OF assms(2,3) this] process_update_distinct [OF assms(1)]
    show ?thesis using assms(3) by (simp add: h config_process_update)
  qed (simp add: assms)
  with Datagram show ?thesis by (simp add: apply_event_def)
next
  case (Sweep now)
  from check_timeouts_total [OF assms(1), of now] obtain r' b' where
    res: "check_timeouts r now = Inr (r', b')" and out: "outputs r' = outputs r"
    and d: "distinct (map fst (routes r'))"
    by blast
  from check_timeouts_nonneg [OF assms(2) res] res out d assms(3) Sweep
  show ?thesis by (simp add: apply_event_def)
qed

lemma apply_events_bounded:
  assumes "metrics_bounded (routes r)" "apply_events r evs = Inr r'"
  shows "metrics_bounded (routes r')"
  using assms
proof (induction evs arbitrary: r)
  case Nil
  then show ?case by simp
next
  case (Cons ev evs)
  from Cons.prems(2) obtain r1 where r1: "apply_event r ev = Inr r1"
    and rest: "apply_events r1 evs = Inr r'"
    by (cases "apply_event r ev") auto
  from Cons.IH [OF apply_event_bounded [OF Cons.prems(1) r1] rest] show ?case .
qed

lemma apply_events_invariant:
  assumes "distinct (map fst (routes r))" "metrics_nonneg (routes r)"
    and "link_costs_nonneg (outputs r)" "\<forall>ev \<in> set evs. advertises_nonneg ev"
  shows "\<exists>r'. apply_events r evs = Inr r' \<and> distinct (map fst (routes r')) \<and>
           metrics_nonneg (routes r')"
  using assms
proof (induction evs arbitrary: r)
  case Nil
  then show ?case by simp
next
  case (Cons ev evs)
  from Cons.prems(4) have ev: "advertises_nonneg ev" and evs: "\<forall>ev \<in> set evs. advertises_nonneg ev"
    by simp_all
  from apply_event_invariant [OF Cons.prems(1,2,3) ev] obtain r1 where
    r1: "apply_event r ev = Inr r1" "distinct (map fst (routes r1))"
      "metrics_nonneg (routes r1)" "link_costs_nonneg (outputs r1)"
    by blast
  from Cons.IH [OF r1(2,3,4) evs] r1(1) show ?case by simp
qed

lemma fold_init_routes:
  assumes "\<forall>(p, c, n) \<in> set outs. 0 \<le> c \<and> c \<le> INFINITY"
    and "distinct (map fst tbl)" "metrics_bounded tbl" "metrics_nonneg tbl"
  shows "distinct (map fst (fold (\<lambda>(_, c, n) tbl. AList.update n (n, c, Finite now, False) tbl) outs tbl)) \<and>
         metrics_bounded (fold (\<lambda>(_, c, n) tbl. AList.update n (n, c, Finite now, False) tbl) outs tbl) \<and>
         metrics_nonneg (fold (\<lambda>(_, c, n) tbl. AList.update n (n, c, Finite now, False) tbl) outs tbl)"
  using assms
proof (induction outs arbitrary: tbl)
  case Nil
  then show ?case by simp
next
  case (Cons out outs)
  obtain p c n where out: "out = (p, c, n)" by (cases out)
  from Cons.prems(1) out have c: "0 \<le> c" "c \<le> INFINITY" by auto
  have "distinct (map fst (AList.update n (n, c, Finite now, False) tbl))"
    using Cons.prems(2) by (simp add: distinct_update)
  moreover have "metrics_bounded (AList.update n (n, c, Finite now, False) tbl)"
    using Cons.prems(3) c by (simp add: metrics_bounded_update)
  moreover have "metrics_nonneg (AList.update n (n, c, Finite now, False) tbl)"
    using Cons.prems(4) c by (simp add: metrics_nonneg_update)
  moreover have "\<forall>(p, c, n) \<in> set outs. 0 \<le> c \<and> c \<le> INFINITY"
    using Cons.prems(1) by simp
  ultimately show ?case using Cons.IH by (simp add: out)
qed

lemma init_routes_invariant:
  assumes "\<forall>(p, c, n) \<in> set outs. 0 \<le> c \<and> c \<le> INFINITY"
  shows "distinct (map fst (init_routes self_id outs now)) \<and>
         metrics_bounded (init_routes self_id outs now) \<and>
         metrics_nonneg (init_routes self_id outs now)"
proof -
  have "distinct (map fst ([] :: table))" "metrics_bounded []" "metrics_nonneg []"
    by (simp_all add: metrics_bounded_def metrics_nonneg_def)
  from fold_init_routes [OF assms this, of now] show ?thesis
    unfolding init_routes_def
    by (simp add: distinct_update metrics_bounded_update metrics_nonneg_update INFINITY_def)
qed

subsection \<open>A repeated update\<close>

lemma strip_times_refresh:
  assumes "map_of tbl d = Some (nh, cm, ts, g)"
  shows "strip_times (AList.update d (nh, cm, ts', g) tbl) = strip_times tbl"
  using assms by (induction tbl) (auto simp: strip_times_def split: if_splits)

lemma process_route_other:
  assumes "d' \<noteq> fst adv"
  shows "map_of (fst (process_route self_id sender base now adv (tbl, b))) d' = map_of tbl d'"
proof -
  obtain d m where adv: "adv = (d, m)" by (cases adv)
  show ?thesis unfolding adv
    by (rule process_route_cases [of self_id sender base now d m tbl b])
       (use assms adv in \<open>simp_all add: update_conv'\<close>)
qed

lemma settled_cong:
  assumes "map_of tbl' (fst adv) = map_of tbl (fst adv)"
  shows "settled self_id sender base tbl' adv = settled self_id sender base tbl adv"
  using assms by (cases adv) (simp add: settled_def)

lemma process_route_settles:
  "settled self_id sender base (fst (process_route self_id sender base now (d, m) (tbl, b))) (d, m)"
proof -
  define nm where "nm = min (base + m) INFINITY"
  note pr = process_route_unfold [OF nm_def]
  have le: "nm \<le> INFINITY" unfolding nm_def by simp
  have st: "settled self_id sender base t (d, m) =
      (d = self_id \<or>
        (case map_of t d of
           None \<Rightarrow> \<not> nm < INFINITY
         | Some (nh, cm, ts, g) \<Rightarrow> if nh = sender then nm = cm else \<not> nm < cm))" for t
    unfolding settled_def nm_def by simp
  show ?thesis
  proof (cases "d = self_id")
    case True
    then show ?thesis by (simp add: settled_def)
  next
    case False
    show ?thesis
    proof (cases "map_of tbl d")
      case None
      then show ?thesis using False
        by (cases "nm < INFINITY") (simp_all add: pr st update_conv')
    next
      case (Some cur)
      obtain nh cm ts g where cur: "cur = (nh, cm, ts, g)" by (cases cur)
      show ?thesis
      proof (cases "nh = sender")
        case True
        show ?thesis
        proof (cases "nm = cm")
          case eq: True
          then show ?thesis using False Some cur True by (simp add: pr st update_conv')
        next
          case ne: False
          show ?thesis
          proof (cases "nm \<ge> INFINITY \<and> cm < INFINITY")
            case c: True
            with le have "nm = INFINITY" by simp
            then show ?thesis using False Some cur True ne c by (simp add: pr st update_conv')
          next
            case c: False
            then show ?thesis using False Some cur True ne by (auto simp: pr st update_conv')
          qed
        qed
      next
        case nsame: False
        then show ?thesis using False Some cur
          by (cases "nm < cm") (simp_all add: pr st update_conv')
      qed
    qed
  qed
qed

lemma process_route_settled:
  assumes "settled self_id sender base tbl (d, m)"
  shows "snd (process_route self_id sender base now (d, m) (tbl, b)) = b \<and>
         strip_times (fst (process_route self_id sender base now (d, m) (tbl, b))) = strip_times tbl"
proof -
  define nm where "nm = min (base + m) INFINITY"
  note pr = process_route_unfold [OF nm_def]
  have st: "settled self_id sender base t (d, m) =
      (d = self_id \<or>
        (case map_of t d of
           None \<Rightarrow> \<not> nm < INFINITY
         | Some (nh, cm, ts, g) \<Rightarrow> if nh = sender then nm = cm else \<not> nm < cm))" for t
    unfolding settled_def nm_def by simp
  show ?thesis
  proof (cases "d = self_id")
    case True
    then show ?thesis by (simp add: pr)
  next
    case False
    show ?thesis
    proof (cases "map_of tbl d")
      case None
      then show ?thesis using False assms by (simp add: pr st)
    next
      case (Some cur)
      obtain nh cm ts g where cur: "cur = (nh, cm, ts, g)" by (cases cur)
      show ?thesis
      proof (cases "nh = sender")
        case True
        with assms False Some cur have "nm = cm" by (simp add: st)
        then show ?thesis using False Some cur True
          by (simp add: pr strip_times_refresh)
      next
        case nsame: False
        with assms False Some cur have "\<not> nm < cm" by (simp add: st)
        then show ?thesis using False Some cur nsame by (simp add: pr)
      qed
    qed
  qed
qed

lemma fold_process_route_other:
  assumes "d' \<notin> fst ` set advertised"
  shows "map_of (fst (fold (process_route self_id sender base now) advertised (tbl, b))) d'
         = map_of tbl d'"
  using assms
proof (induction advertised arbitrary: tbl b)
  case Nil
  then show ?case by simp
next
  case (Cons adv advertised)
  obtain tbl1 b1 where st: "process_route self_id sender base now adv (tbl, b) = (tbl1, b1)"
    by (cases "process_route self_id sender base now adv (tbl, b)")
  from Cons.prems have "d' \<noteq> fst adv" "d' \<notin> fst ` set advertised" by auto
  from process_route_other [OF this(1), of self_id sender base now tbl b] Cons.IH [OF this(2), of tbl1 b1]
  show ?case by (simp add: st)
qed

lemma fold_process_route_settles:
  assumes "distinct (map fst advertised)"
  shows "\<forall>adv \<in> set advertised.
           settled self_id sender base
             (fst (fold (process_route self_id sender base now) advertised (tbl, b))) adv"
  using assms
proof (induction advertised arbitrary: tbl b)
  case Nil
  then show ?case by simp
next
  case (Cons adv advertised)
  obtain d m where adv: "adv = (d, m)" by (cases adv)
  obtain tbl1 b1 where st: "process_route self_id sender base now (d, m) (tbl, b) = (tbl1, b1)"
    by (cases "process_route self_id sender base now (d, m) (tbl, b)")
  from Cons.prems adv have notin: "d \<notin> fst ` set advertised" and dist: "distinct (map fst advertised)"
    by simp_all
  have s1: "settled self_id sender base tbl1 (d, m)"
    using process_route_settles [of self_id sender base now d m tbl b] by (simp add: st)
  have "map_of (fst (fold (process_route self_id sender base now) advertised (tbl1, b1)))
        (fst (d, m))
      = map_of tbl1 (fst (d, m))"
    using fold_process_route_other [OF notin] by simp
  from settled_cong [OF this] s1
  have "settled self_id sender base
      (fst (fold (process_route self_id sender base now) advertised (tbl1, b1))) (d, m)"
    by blast
  with Cons.IH [OF dist, of tbl1 b1] show ?case by (simp add: adv st)
qed

lemma fold_process_route_settled:
  assumes "distinct (map fst advertised)"
    and "\<forall>adv \<in> set advertised. settled self_id sender base tbl adv"
  shows "snd (fold (process_route self_id sender base now) advertised (tbl, b)) = b \<and>
         strip_times (fst (fold (process_route self_id sender base now) advertised (tbl, b)))
           = strip_times tbl"
  using assms
proof (induction advertised arbitrary: tbl)
  case Nil
  then show ?case by simp
next
  case (Cons adv advertised)
  obtain d m where adv: "adv = (d, m)" by (cases adv)
  obtain tbl1 b1 where st: "process_route self_id sender base now (d, m) (tbl, b) = (tbl1, b1)"
    by (cases "process_route self_id sender base now (d, m) (tbl, b)")
  from Cons.prems(2) adv have "settled self_id sender base tbl (d, m)" by simp
  from process_route_settled [OF this, of now b] st
  have b1: "b1 = b" and s1: "strip_times tbl1 = strip_times tbl" by simp_all
  from Cons.prems(1) adv have notin: "d \<notin> fst ` set advertised" and dist: "distinct (map fst advertised)"
    by simp_all
  have "settled self_id sender base tbl1 adv'" if "adv' \<in> set advertised" for adv'
  proof -
    from that notin have "fst adv' \<noteq> fst (d, m)" by auto
    from process_route_other [OF this, of self_id sender base now tbl b] st
    have "map_of tbl1 (fst adv') = map_of tbl (fst adv')" by simp
    from settled_cong [OF this] Cons.prems(2) that show ?thesis by simp
  qed
  then have "\<forall>adv \<in> set advertised. settled self_id sender base tbl1 adv" by blast
  from Cons.IH [OF dist this] show ?case by (simp add: adv st b1 s1)
qed

lemma process_update_twice:
  assumes "distinct (map fst advertised)"
  shows "snd (process_update (fst (process_update r sender advertised now)) sender advertised now')
           = False \<and>
         strip_times (routes (fst (process_update (fst (process_update r sender advertised now))
                                     sender advertised now')))
           = strip_times (routes (fst (process_update r sender advertised now)))"
proof (cases "find_neighbor (outputs r) sender")
  case None
  then show ?thesis by (simp add: process_update_def)
next
  case (Some out)
  obtain p base n where out: "out = (p, base, n)" by (cases out)
  define r1 where "r1 = fst (process_update r sender advertised now)"
  have cfg: "outputs r1 = outputs r" "router_id r1 = router_id r"
    unfolding r1_def by (simp_all add: config_process_update)
  have t1: "routes r1 = fst (fold (process_route (router_id r) sender base now) advertised (routes r, False))"
    unfolding r1_def by (simp add: routes_process_update Some out)
  have "\<forall>adv \<in> set advertised. settled (router_id r) sender base (routes r1) adv"
    unfolding t1 by (rule fold_process_route_settles [OF assms])
  from fold_process_route_settled [OF assms this, of now' False]
  have "snd (fold (process_route (router_id r) sender base now') advertised (routes r1, False)) = False"
    and "strip_times (fst (fold (process_route (router_id r) sender base now') advertised (routes r1, False)))
         = strip_times (routes r1)"
    by simp_all
  then have "snd (process_update r1 sender advertised now') = False \<and>
        strip_times (routes (fst (process_update r1 sender advertised now'))) = strip_times (routes r1)"
    by (auto simp: process_update_def cfg Some out split: prod.split)
  then show ?thesis unfolding r1_def .
qed

subsection \<open>\<^verbatim>\<open>send_updates\<close>\<close>

lemma routes_to_send_loop_eq:
  "routes_to_send_loop neighbor_id items acc =
     acc @ map (\<lambda>(d, v). (d, if route_next_hop v = neighbor_id then INFINITY else route_metric v))
             items"
proof (induction items arbitrary: acc)
  case Nil
  then show ?case by simp
next
  case (Cons item items)
  obtain d nh m ts g where item: "item = (d, nh, m, ts, g)" by (cases item)
  show ?case
    by (simp add: item Cons.IH route_next_hop_def route_metric_def)
qed

lemma routes_to_send_eq:
  "routes_to_send neighbor_id tbl =
     map (\<lambda>(d, v). (d, if route_next_hop v = neighbor_id then INFINITY else route_metric v)) tbl"
  by (simp add: routes_to_send_def routes_to_send_loop_eq)

lemma routes_to_send_nth:
  assumes "i < length tbl"
  shows "routes_to_send neighbor_id tbl ! i =
           (fst (tbl ! i),
            if route_next_hop (snd (tbl ! i)) = neighbor_id then INFINITY
            else route_metric (snd (tbl ! i)))"
  using assms by (simp add: routes_to_send_eq case_prod_beta)

lemma send_updates_loop_result:
  assumes "send_updates_loop r outs sent = Inr res"
  shows "\<exists>new. res = sent @ new \<and>
           list_all2 (\<lambda>dg out. snd dg = fst out \<and>
                        create_response (router_id r) (routes_to_send (snd (snd out)) (routes r))
                          = Inr (fst dg)) new outs"
  using assms
proof (induction outs arbitrary: sent)
  case Nil
  then show ?case by simp
next
  case (Cons out outs)
  obtain p c n where out: "out = (p, c, n)" by (cases out)
  from Cons.prems obtain packet where
    pk: "create_response (router_id r) (routes_to_send n (routes r)) = Inr packet"
    and rest: "send_updates_loop r outs (sent @ [(packet, p)]) = Inr res"
    by (cases "create_response (router_id r) (routes_to_send n (routes r))") (auto simp: out)
  from Cons.IH [OF rest] obtain new where
    new: "res = (sent @ [(packet, p)]) @ new"
      "list_all2 (\<lambda>dg out. snd dg = fst out \<and>
                        create_response (router_id r) (routes_to_send (snd (snd out)) (routes r))
                          = Inr (fst dg)) new outs"
    by blast
  show ?case
    by (rule exI [of _ "(packet, p) # new"]) (simp add: new out pk)
qed

lemma send_updates_result:
  assumes "send_updates r = Inr sent" "j < length (outputs r)"
  shows "length sent = length (outputs r) \<and>
         snd (sent ! j) = fst (outputs r ! j) \<and>
         create_response (router_id r)
           (routes_to_send (snd (snd (outputs r ! j))) (routes r)) = Inr (fst (sent ! j))"
proof -
  from send_updates_loop_result [OF assms(1) [unfolded send_updates_def]]
  have "list_all2 (\<lambda>dg out. snd dg = fst out \<and>
                        create_response (router_id r) (routes_to_send (snd (snd out)) (routes r))
                          = Inr (fst dg)) sent (outputs r)"
    by simp
  then show ?thesis using assms(2) by (simp add: list_all2_conv_all_nth)
qed

subsection \<open>One packet for every table\<close>



section \<open>Properties of the routing engine of \<^verbatim>\<open>1Server.py\<close>\<close>

lemma add_link_cost_fields:
  "dst_id (add_link_cost outs src_id e) = dst_id e"
  "next_hop (add_link_cost outs src_id e) = next_hop e"
  "changed_flag (add_link_cost outs src_id e) = changed_flag e"
  "garbage_flag (add_link_cost outs src_id e) = garbage_flag e"
  by (induction outs src_id e rule: add_link_cost.induct) simp_all

lemma add_link_cost_range:
  assumes "server_costs_nonneg outs" "0 \<le> metric e" "metric e \<le> INFINITY"
  shows "0 \<le> metric (add_link_cost outs src_id e) \<and> metric (add_link_cost outs src_id e) \<le> INFINITY"
  using assms
proof (induction outs src_id e rule: add_link_cost.induct)
  case (1 src_id entry)
  then show ?case by simp
next
  case (2 out outs src_id entry)
  from "2.prems"(1) have c: "0 \<le> link_cost out" and rest: "server_costs_nonneg outs"
    by (simp_all add: server_costs_nonneg_def)
  show ?case
  proof (cases "peer_id out = src_id")
    case True
    have "0 \<le> min (metric entry + link_cost out) INFINITY"
      using c "2.prems"(2) by (simp add: INFINITY_def)
    with "2.IH"(1) [OF True rest] True show ?thesis by simp
  next
    case False
    with "2.IH"(2) [OF False rest] "2.prems" show ?thesis by simp
  qed
qed

lemma add_link_cost_unknown:
  assumes "\<forall>output \<in> set outs. peer_id output \<noteq> src_id"
  shows "add_link_cost outs src_id e = e"
  using assms by (induction outs src_id e rule: add_link_cost.induct) simp_all

lemma resolve_entry_unfold:
  assumes "entry = add_link_cost outs src_id received"
  shows "resolve_entry self_id outs tt src_id now received (tbl, trig) =
     (if dst_id received \<noteq> self_id then
        (case map_of tbl (dst_id received) of
           None \<Rightarrow>
             if metric entry \<noteq> INFINITY then (install now entry tbl, trig)
             else (tbl, trig)
         | Some current \<Rightarrow>
             if garbage_flag current \<and> metric entry < INFINITY
             then (install now entry tbl, trig)
             else if metric entry = metric current then
               if next_hop received = next_hop current
               then (AList.update (dst_id received) (init_timeout now current) tbl, trig)
               else if now \<ge> timeout current + tt / 2
               then (install now entry tbl, trig)
               else (tbl, trig)
             else if (next_hop current = src_id \<and> metric entry \<noteq> metric current)
                     \<or> metric entry < metric current then
               if metric entry = INFINITY
               then (AList.update (dst_id received)
                       (init_garbage now
                          ((init_timeout now (entry\<lparr>changed_flag := True\<rparr>))
                             \<lparr>garbage_flag := True\<rparr>)) tbl, True)
               else (install now entry tbl, trig)
             else (tbl, trig))
      else (tbl, trig))"
  unfolding resolve_entry_def Let_def prod.case assms add_link_cost_fields ..

lemma resolve_entry_cases:
  obtains (same) "fst (resolve_entry self_id outs tt src_id now received (tbl, trig)) = tbl"
  | (new) v where
      "fst (resolve_entry self_id outs tt src_id now received (tbl, trig))
         = AList.update (dst_id received) v tbl"
      "dst_id v = dst_id received" "next_hop v = next_hop received"
      "metric v = metric (add_link_cost outs src_id received)"
  | (refresh) current where
      "fst (resolve_entry self_id outs tt src_id now received (tbl, trig))
         = AList.update (dst_id received) (init_timeout now current) tbl"
      "map_of tbl (dst_id received) = Some current"
proof -
  define entry where "entry = add_link_cost outs src_id received"
  note re = resolve_entry_unfold [OF entry_def]
  have inst: "install now entry t = AList.update (dst_id received)
      (init_timeout now (entry\<lparr>changed_flag := True\<rparr>)) t" for t
    by (simp add: install_def entry_def add_link_cost_fields)
  have f1: "dst_id (init_timeout now (entry\<lparr>changed_flag := True\<rparr>)) = dst_id received"
    "next_hop (init_timeout now (entry\<lparr>changed_flag := True\<rparr>)) = next_hop received"
    "metric (init_timeout now (entry\<lparr>changed_flag := True\<rparr>)) = metric entry"
    by (simp_all add: init_timeout_def entry_def add_link_cost_fields)
  have f2: "dst_id (init_garbage now ((init_timeout now (entry\<lparr>changed_flag := True\<rparr>))
                             \<lparr>garbage_flag := True\<rparr>)) = dst_id received"
    "next_hop (init_garbage now ((init_timeout now (entry\<lparr>changed_flag := True\<rparr>))
                             \<lparr>garbage_flag := True\<rparr>)) = next_hop received"
    "metric (init_garbage now ((init_timeout now (entry\<lparr>changed_flag := True\<rparr>))
                             \<lparr>garbage_flag := True\<rparr>)) = metric entry"
    by (simp_all add: init_timeout_def init_garbage_def entry_def add_link_cost_fields)
  have n1: thesis if h: "fst (resolve_entry self_id outs tt src_id now received (tbl, trig))
      = install now entry tbl"
  proof (rule new [of "init_timeout now (entry\<lparr>changed_flag := True\<rparr>)"])
    show "fst (resolve_entry self_id outs tt src_id now received (tbl, trig))
      = AList.update (dst_id received) (init_timeout now (entry\<lparr>changed_flag := True\<rparr>)) tbl"
      using h by (simp only: inst)
  qed (simp_all only: f1 entry_def [symmetric])
  have n2: thesis if h: "fst (resolve_entry self_id outs tt src_id now received (tbl, trig))
      = AList.update (dst_id received)
                       (init_garbage now
                          ((init_timeout now (entry\<lparr>changed_flag := True\<rparr>))
                             \<lparr>garbage_flag := True\<rparr>)) tbl"
    by (rule new [OF h]) (simp_all only: f2 entry_def [symmetric])
  let ?res = "fst (resolve_entry self_id outs tt src_id now received (tbl, trig))"
  show ?thesis
  proof (cases "dst_id received \<noteq> self_id")
    case False
    then have "?res = tbl" by (simp add: re)
    then show ?thesis by (rule same)
  next
    case True
    show ?thesis
    proof (cases "map_of tbl (dst_id received)")
      case None
      show ?thesis
      proof (cases "metric entry \<noteq> INFINITY")
        case c1: True
        with True None have "?res = install now entry tbl" by (simp add: re)
        then show ?thesis by (rule n1)
      next
        case c1: False
        with True None have "?res = tbl" by (simp add: re)
        then show ?thesis by (rule same)
      qed
    next
      case (Some current)
      show ?thesis
      proof (cases "garbage_flag current \<and> metric entry < INFINITY")
        case c2: True
        with True Some have "?res = install now entry tbl" by (simp add: re)
        then show ?thesis by (rule n1)
      next
        case c2: False
        show ?thesis
        proof (cases "metric entry = metric current")
          case c3: True
          show ?thesis
          proof (cases "next_hop received = next_hop current")
            case h: True
            with True Some c2 c3
            have "?res = AList.update (dst_id received) (init_timeout now current) tbl"
              by (auto simp: re)
            then show ?thesis using Some by (rule refresh)
          next
            case h: False
            show ?thesis
            proof (cases "now \<ge> timeout current + tt / 2")
              case st: True
              with True Some c2 c3 h have "?res = install now entry tbl" by (auto simp: re)
              then show ?thesis by (rule n1)
            next
              case st: False
              with True Some c2 c3 h have "?res = tbl" by (auto simp: re)
              then show ?thesis by (rule same)
            qed
          qed
        next
          case c3: False
          show ?thesis
          proof (cases "(next_hop current = src_id \<and> metric entry \<noteq> metric current)
                     \<or> metric entry < metric current")
            case c4: True
            show ?thesis
            proof (cases "metric entry = INFINITY")
              case inf: True
              with True Some c2 c3 c4
              have "?res = AList.update (dst_id received)
                       (init_garbage now
                          ((init_timeout now (entry\<lparr>changed_flag := True\<rparr>))
                             \<lparr>garbage_flag := True\<rparr>)) tbl"
                by (auto simp: re)
              then show ?thesis by (rule n2)
            next
              case inf: False
              with True Some c2 c3 c4 have "?res = install now entry tbl" by (auto simp: re)
              then show ?thesis by (rule n1)
            qed
          next
            case c4: False
            with True Some c2 c3 have "?res = tbl" by (auto simp: re)
            then show ?thesis by (rule same)
          qed
        qed
      qed
    qed
  qed
qed

subsection \<open>The table stays a dictionary keyed by \<open>dst_id\<close>, with metrics in range\<close>

lemma table_wf_update:
  assumes "table_wf tbl" "dst_id v = k"
  shows "table_wf (AList.update k v tbl)"
  using assms unfolding table_wf_def by (auto simp: distinct_update dest!: set_update_cases)

lemma table_wf_delete:
  assumes "table_wf tbl"
  shows "table_wf (AList.delete k tbl)"
  using assms set_delete_subset [of k tbl] unfolding table_wf_def
  by (auto simp: distinct_delete)

lemma table_wf_lookup:
  assumes "table_wf tbl" "map_of tbl k = Some e"
  shows "dst_id e = k"
  using assms(1) map_of_SomeD [OF assms(2)] unfolding table_wf_def by auto

lemma table_wf_keys:
  assumes "table_wf tbl"
  shows "map (dst_id \<circ> snd) tbl = map fst tbl"
  using assms unfolding table_wf_def by auto

lemma entries_in_range_update:
  assumes "entries_in_range tbl" "0 \<le> metric v" "metric v \<le> INFINITY"
  shows "entries_in_range (AList.update k v tbl)"
  using assms unfolding entries_in_range_def by (auto dest!: set_update_cases)

lemma entries_in_range_delete:
  assumes "entries_in_range tbl"
  shows "entries_in_range (AList.delete k tbl)"
  using assms set_delete_subset [of k tbl] unfolding entries_in_range_def by blast

lemma entries_in_range_lookup:
  assumes "entries_in_range tbl" "map_of tbl k = Some e"
  shows "0 \<le> metric e \<and> metric e \<le> INFINITY"
  using assms(1) map_of_SomeD [OF assms(2)] unfolding entries_in_range_def by auto

lemma fold_state_inv:
  assumes "\<And>x s b. x \<in> set xs \<Longrightarrow> P s \<Longrightarrow> P (fst (f x (s, b)))" and "P s"
  shows "P (fst (fold f xs (s, b)))"
  using assms
proof (induction xs arbitrary: s b)
  case Nil
  then show ?case by simp
next
  case (Cons x xs)
  obtain s1 b1 where st: "f x (s, b) = (s1, b1)" by (cases "f x (s, b)")
  have "P s1" using Cons.prems(1) [of x s b] Cons.prems(2) st by simp
  moreover have "\<And>x s b. x \<in> set xs \<Longrightarrow> P s \<Longrightarrow> P (fst (f x (s, b)))"
    using Cons.prems(1) by simp
  ultimately have "P (fst (fold f xs (s1, b1)))" by (rule Cons.IH [rotated])
  then show ?case by (simp add: st)
qed

lemma resolve_entry_wf:
  assumes "table_wf tbl"
  shows "table_wf (fst (resolve_entry self_id outs tt src_id now received (tbl, trig)))"
proof (rule resolve_entry_cases [of self_id outs tt src_id now received tbl trig])
  fix current
  assume eq: "fst (resolve_entry self_id outs tt src_id now received (tbl, trig))
         = AList.update (dst_id received) (init_timeout now current) tbl"
    and cur: "map_of tbl (dst_id received) = Some current"
  from table_wf_lookup [OF assms cur] have "dst_id (init_timeout now current) = dst_id received"
    by (simp add: init_timeout_def)
  from table_wf_update [OF assms this] eq
  show "table_wf (fst (resolve_entry self_id outs tt src_id now received (tbl, trig)))" by simp
qed (simp_all add: assms table_wf_update)

lemma resolve_entry_range:
  assumes "entries_in_range tbl" "server_costs_nonneg outs"
    and "0 \<le> metric received" "metric received \<le> INFINITY"
  shows "entries_in_range (fst (resolve_entry self_id outs tt src_id now received (tbl, trig)))"
proof (rule resolve_entry_cases [of self_id outs tt src_id now received tbl trig])
  fix current
  assume eq: "fst (resolve_entry self_id outs tt src_id now received (tbl, trig))
         = AList.update (dst_id received) (init_timeout now current) tbl"
    and cur: "map_of tbl (dst_id received) = Some current"
  from entries_in_range_lookup [OF assms(1) cur]
  have "0 \<le> metric (init_timeout now current)" "metric (init_timeout now current) \<le> INFINITY"
    by (simp_all add: init_timeout_def)
  from entries_in_range_update [OF assms(1) this] eq
  show "entries_in_range (fst (resolve_entry self_id outs tt src_id now received (tbl, trig)))"
    by simp
next
  fix v
  assume eq: "fst (resolve_entry self_id outs tt src_id now received (tbl, trig))
         = AList.update (dst_id received) v tbl"
    and m: "metric v = metric (add_link_cost outs src_id received)"
  from add_link_cost_range [OF assms(2,3,4), of src_id] m
  have "0 \<le> metric v" "metric v \<le> INFINITY" by simp_all
  from entries_in_range_update [OF assms(1) this] eq
  show "entries_in_range (fst (resolve_entry self_id outs tt src_id now received (tbl, trig)))"
    by simp
qed (simp add: assms)

lemma table_resolve_update:
  "routing_table (resolve_update s (src_id, table_entries) now) =
     fst (fold (resolve_entry (server_id s) (server_outputs s) (timeout_time s) src_id now)
            table_entries (routing_table s, triggered_update_call s))"
  by (simp add: resolve_update_def split: prod.split)

lemma config_resolve_update:
  "server_id (resolve_update s decoded now) = server_id s"
  "server_outputs (resolve_update s decoded now) = server_outputs s"
  "timeout_time (resolve_update s decoded now) = timeout_time s"
  "garbage_period (resolve_update s decoded now) = garbage_period s"
  by (simp_all add: resolve_update_def split: prod.split)

lemma resolve_update_wf:
  assumes "table_wf (routing_table s)"
  shows "table_wf (routing_table (resolve_update s (src_id, table_entries) now))"
  unfolding table_resolve_update
  by (rule fold_state_inv [where P = table_wf]) (simp_all add: resolve_entry_wf assms)

lemma resolve_update_range:
  assumes "entries_in_range (routing_table s)" "server_costs_nonneg (server_outputs s)"
    and "\<forall>e \<in> set table_entries. 0 \<le> metric e \<and> metric e \<le> INFINITY"
  shows "entries_in_range (routing_table (resolve_update s (src_id, table_entries) now))"
  unfolding table_resolve_update
proof (rule fold_state_inv [where P = entries_in_range])
  fix x tbl b
  assume "x \<in> set table_entries" "entries_in_range tbl"
  with assms(3) have "0 \<le> metric x" "metric x \<le> INFINITY" by auto
  from resolve_entry_range [OF \<open>entries_in_range tbl\<close> assms(2) this]
  show "entries_in_range
          (fst (resolve_entry (server_id s) (server_outputs s) (timeout_time s) src_id now x (tbl, b)))" .
qed (rule assms(1))

subsection \<open>\<^verbatim>\<open>check_timeout\<close>\<close>

lemma check_timeout_loop_result:
  assumes "distinct ds" "\<forall>d \<in> set ds. map_of tbl d \<noteq> None"
  shows "\<exists>tbl' trig'. check_timeout_loop tt now ds (tbl, trig) = Inr (tbl', trig') \<and>
           map fst tbl' = map fst tbl \<and>
           (\<forall>d. map_of tbl' d =
              (if d \<in> set ds then
                 (case map_of tbl d of
                    None \<Rightarrow> None
                  | Some cur \<Rightarrow>
                      if \<not> garbage_flag cur \<and> now \<ge> timeout cur + tt
                      then Some (cur\<lparr>garbage_time := now, garbage_flag := True, metric := INFINITY,
                                    changed_flag := True\<rparr>)
                      else Some cur)
               else map_of tbl d))"
  using assms
proof (induction ds arbitrary: tbl trig)
  case Nil
  then show ?case by simp
next
  case (Cons k ds)
  have dk: "distinct ds" and knot: "k \<notin> set ds" using Cons.prems(1) by simp_all
  from Cons.prems(2) obtain cur where Some: "map_of tbl k = Some cur" by auto
  define fire where "fire = (\<not> garbage_flag cur \<and> now \<ge> timeout cur + tt)"
  define cur' where "cur' = cur\<lparr>garbage_time := now, garbage_flag := True, metric := INFINITY,
                                    changed_flag := True\<rparr>"
  define tbl1 where "tbl1 = (if fire then AList.update k cur' tbl else tbl)"
  define trig1 where "trig1 = (if fire then True else trig)"
  have step: "check_timeout_loop tt now (k # ds) (tbl, trig) = check_timeout_loop tt now ds (tbl1, trig1)"
    unfolding tbl1_def trig1_def fire_def cur'_def using Some
    by (simp add: init_garbage_def)
  have other: "map_of tbl1 d = map_of tbl d" if "d \<noteq> k" for d
    using that unfolding tbl1_def by (simp add: update_conv')
  have at_k: "map_of tbl1 k = (if fire then Some cur' else Some cur)"
    unfolding tbl1_def using Some by (simp add: update_conv')
  have keys1: "map fst tbl1 = map fst tbl"
  proof -
    from map_of_SomeD [OF Some] have "k \<in> fst ` set tbl" by force
    then show ?thesis unfolding tbl1_def by (simp add: update_keys)
  qed
  have "map_of tbl1 k' \<noteq> None" if "k' \<in> set ds" for k'
  proof -
    from that knot have "k' \<noteq> k" by auto
    from other [OF this] Cons.prems(2) that show ?thesis by simp
  qed
  then have "\<forall>k' \<in> set ds. map_of tbl1 k' \<noteq> None" by blast
  from Cons.IH [OF dk this, of trig1] obtain tbl' trig' where
    res: "check_timeout_loop tt now ds (tbl1, trig1) = Inr (tbl', trig')"
    and keys: "map fst tbl' = map fst tbl1"
    and ch: "\<And>d. map_of tbl' d =
              (if d \<in> set ds then
                 (case map_of tbl1 d of
                    None \<Rightarrow> None
                  | Some cur \<Rightarrow>
                      if \<not> garbage_flag cur \<and> now \<ge> timeout cur + tt
                      then Some (cur\<lparr>garbage_time := now, garbage_flag := True, metric := INFINITY,
                                    changed_flag := True\<rparr>)
                      else Some cur)
               else map_of tbl1 d)"
    by blast
  have "map_of tbl' d =
              (if d \<in> set (k # ds) then
                 (case map_of tbl d of
                    None \<Rightarrow> None
                  | Some cur \<Rightarrow>
                      if \<not> garbage_flag cur \<and> now \<ge> timeout cur + tt
                      then Some (cur\<lparr>garbage_time := now, garbage_flag := True, metric := INFINITY,
                                    changed_flag := True\<rparr>)
                      else Some cur)
               else map_of tbl d)" for d
  proof (cases "d = k")
    case True
    then show ?thesis using ch [of k] knot at_k Some by (simp add: fire_def cur'_def)
  next
    case d: False
    then show ?thesis using ch [of d] other [OF d] by simp
  qed
  with res step keys keys1 show ?case by simp
qed

lemma check_timeout_loop_inv:
  assumes "\<And>tbl k cur. P tbl \<Longrightarrow> map_of tbl k = Some cur \<Longrightarrow>
             P (AList.update k (cur\<lparr>garbage_time := now, garbage_flag := True, metric := INFINITY,
                                    changed_flag := True\<rparr>) tbl)"
    and "P tbl" "check_timeout_loop tt now ds (tbl, trig) = Inr (tbl', trig')"
  shows "P tbl'"
  using assms(2,3)
proof (induction ds arbitrary: tbl trig)
  case Nil
  then show ?case by simp
next
  case (Cons k ds)
  show ?case
  proof (cases "map_of tbl k")
    case None
    with Cons.prems show ?thesis by simp
  next
    case (Some cur)
    define fire where "fire = (\<not> garbage_flag cur \<and> now \<ge> timeout cur + tt)"
    define cur' where "cur' = cur\<lparr>garbage_time := now, garbage_flag := True, metric := INFINITY,
                                    changed_flag := True\<rparr>"
    define tbl1 where "tbl1 = (if fire then AList.update k cur' tbl else tbl)"
    define trig1 where "trig1 = (if fire then True else trig)"
    have "check_timeout_loop tt now (k # ds) (tbl, trig) = check_timeout_loop tt now ds (tbl1, trig1)"
      unfolding tbl1_def trig1_def fire_def cur'_def using Some
      by (simp add: init_garbage_def)
    with Cons.prems(2) have res: "check_timeout_loop tt now ds (tbl1, trig1) = Inr (tbl', trig')"
      by simp
    have "P tbl1" unfolding tbl1_def cur'_def using Cons.prems(1) assms(1) [OF _ Some] by simp
    from Cons.IH [OF this res] show ?thesis .
  qed
qed

lemma check_timeout_result:
  assumes "table_wf (routing_table s)"
  shows "\<exists>s'. check_timeout s now = Inr s' \<and>
           server_id s' = server_id s \<and> server_outputs s' = server_outputs s \<and>
           timeout_time s' = timeout_time s \<and> garbage_period s' = garbage_period s \<and>
           table_wf (routing_table s') \<and>
           (\<forall>d. map_of (routing_table s') d =
              (case map_of (routing_table s) d of
                 None \<Rightarrow> None
               | Some cur \<Rightarrow>
                   if \<not> garbage_flag cur \<and> now \<ge> timeout cur + timeout_time s
                   then Some (cur\<lparr>garbage_time := now, garbage_flag := True, metric := INFINITY,
                                 changed_flag := True\<rparr>)
                   else Some cur))"
proof -
  let ?keys = "map (dst_id \<circ> snd) (routing_table s)"
  have keys: "?keys = map fst (routing_table s)" by (rule table_wf_keys [OF assms])
  have d: "distinct ?keys" using assms unfolding keys table_wf_def by simp
  have "\<forall>d \<in> set ?keys. map_of (routing_table s) d \<noteq> None"
    unfolding keys by (auto simp: map_of_eq_None_iff)
  from check_timeout_loop_result [OF d this, of "timeout_time s" now "triggered_update_call s"]
  obtain tbl' trig' where
    res: "check_timeout_loop (timeout_time s) now ?keys (routing_table s, triggered_update_call s)
            = Inr (tbl', trig')"
    and ch: "\<And>d. map_of tbl' d =
              (if d \<in> set ?keys then
                 (case map_of (routing_table s) d of
                    None \<Rightarrow> None
                  | Some cur \<Rightarrow>
                      if \<not> garbage_flag cur \<and> now \<ge> timeout cur + timeout_time s
                      then Some (cur\<lparr>garbage_time := now, garbage_flag := True, metric := INFINITY,
                                    changed_flag := True\<rparr>)
                      else Some cur)
               else map_of (routing_table s) d)"
    by blast
  have wf: "table_wf tbl'"
  proof (rule check_timeout_loop_inv [where P = table_wf, OF _ assms res])
    fix tbl k cur
    assume "table_wf tbl" "map_of tbl k = Some cur"
    from table_wf_update [OF this(1), of _ k] table_wf_lookup [OF this]
    show "table_wf (AList.update k (cur\<lparr>garbage_time := now, garbage_flag := True,
            metric := INFINITY, changed_flag := True\<rparr>) tbl)"
      by simp
  qed
  have "map_of tbl' d =
              (case map_of (routing_table s) d of
                 None \<Rightarrow> None
               | Some cur \<Rightarrow>
                   if \<not> garbage_flag cur \<and> now \<ge> timeout cur + timeout_time s
                   then Some (cur\<lparr>garbage_time := now, garbage_flag := True, metric := INFINITY,
                                 changed_flag := True\<rparr>)
                   else Some cur)" for d
  proof (cases "d \<in> set ?keys")
    case True
    then show ?thesis using ch [of d] by simp
  next
    case False
    then have "map_of (routing_table s) d = None" unfolding keys by (simp add: map_of_eq_None_iff)
    then show ?thesis using ch [of d] False by simp
  qed
  with res wf show ?thesis by (simp add: check_timeout_def)
qed

lemma check_timeout_range:
  assumes "entries_in_range (routing_table s)" "check_timeout s now = Inr s'"
  shows "entries_in_range (routing_table s')"
proof -
  from assms(2) obtain tbl' trig' where
    res: "check_timeout_loop (timeout_time s) now (map (dst_id \<circ> snd) (routing_table s))
            (routing_table s, triggered_update_call s) = Inr (tbl', trig')"
    and s': "s' = s\<lparr>routing_table := tbl', triggered_update_call := trig'\<rparr>"
    by (auto simp: check_timeout_def split: sum.splits)
  have "entries_in_range tbl'"
    by (rule check_timeout_loop_inv [where P = entries_in_range, OF _ assms(1) res])
       (simp add: entries_in_range_update INFINITY_def)
  then show ?thesis by (simp add: s')
qed

subsection \<open>\<^verbatim>\<open>check_garbage\<close>\<close>

lemma remove_list_loop_result:
  assumes "\<forall>d \<in> set ds. map_of tbl d \<noteq> None"
  shows "remove_list_loop gp now tbl ds acc =
           Inr (acc @ filter (\<lambda>d. case map_of tbl d of None \<Rightarrow> False
                                   | Some cur \<Rightarrow> garbage_flag cur \<and> now \<ge> garbage_time cur + gp) ds)"
  using assms
proof (induction ds arbitrary: acc)
  case Nil
  then show ?case by simp
next
  case (Cons d ds)
  from Cons.prems obtain cur where cur: "map_of tbl d = Some cur" by auto
  from Cons.prems have "\<forall>d \<in> set ds. map_of tbl d \<noteq> None" by simp
  from Cons.IH [OF this] cur show ?case by simp
qed

lemma delete_all_result:
  assumes "distinct rl" "\<forall>d \<in> set rl. map_of tbl d \<noteq> None"
  shows "\<exists>tbl'. delete_all rl tbl = Inr tbl' \<and>
           (\<forall>d. map_of tbl' d = (if d \<in> set rl then None else map_of tbl d))"
  using assms
proof (induction rl arbitrary: tbl)
  case Nil
  then show ?case by simp
next
  case (Cons k rl)
  from Cons.prems(2) obtain cur where cur: "map_of tbl k = Some cur" by auto
  from Cons.prems(1) have knot: "k \<notin> set rl" and dr: "distinct rl" by simp_all
  have "map_of (AList.delete k tbl) d \<noteq> None" if "d \<in> set rl" for d
  proof -
    from that knot have "d \<noteq> k" by auto
    with Cons.prems(2) that show ?thesis by (simp add: delete_conv')
  qed
  then have "\<forall>d \<in> set rl. map_of (AList.delete k tbl) d \<noteq> None" by blast
  from Cons.IH [OF dr this] obtain tbl' where
    res: "delete_all rl (AList.delete k tbl) = Inr tbl'"
    and ch: "\<And>d. map_of tbl' d = (if d \<in> set rl then None else map_of (AList.delete k tbl) d)"
    by blast
  have "map_of tbl' d = (if d \<in> set (k # rl) then None else map_of tbl d)" for d
    using ch [of d] by (simp add: delete_conv')
  with res cur show ?case by simp
qed

lemma delete_all_inv:
  assumes "\<And>tbl k. P tbl \<Longrightarrow> P (AList.delete k tbl)" "P tbl" "delete_all rl tbl = Inr tbl'"
  shows "P tbl'"
  using assms(2,3)
proof (induction rl arbitrary: tbl)
  case Nil
  then show ?case by simp
next
  case (Cons k rl)
  from Cons.prems(2) have res: "delete_all rl (AList.delete k tbl) = Inr tbl'"
    by (cases "map_of tbl k") simp_all
  from Cons.IH [OF assms(1) [OF Cons.prems(1)] res] show ?case .
qed

lemma check_garbage_result:
  assumes "table_wf (routing_table s)"
  shows "\<exists>s'. check_garbage s now = Inr s' \<and>
           server_id s' = server_id s \<and> server_outputs s' = server_outputs s \<and>
           timeout_time s' = timeout_time s \<and> garbage_period s' = garbage_period s \<and>
           triggered_update_call s' = triggered_update_call s \<and>
           table_wf (routing_table s') \<and>
           (\<forall>d. map_of (routing_table s') d =
              (case map_of (routing_table s) d of
                 None \<Rightarrow> None
               | Some cur \<Rightarrow>
                   if garbage_flag cur \<and> now \<ge> garbage_time cur + garbage_period s then None
                   else Some cur))"
proof -
  let ?keys = "map (dst_id \<circ> snd) (routing_table s)"
  let ?due = "\<lambda>d. case map_of (routing_table s) d of None \<Rightarrow> False
                | Some cur \<Rightarrow> garbage_flag cur \<and> now \<ge> garbage_time cur + garbage_period s"
  have keys: "?keys = map fst (routing_table s)" by (rule table_wf_keys [OF assms])
  have d: "distinct ?keys" using assms unfolding keys table_wf_def by simp
  have dom: "\<forall>d \<in> set ?keys. map_of (routing_table s) d \<noteq> None"
    unfolding keys by (auto simp: map_of_eq_None_iff)
  from remove_list_loop_result [OF dom, of "garbage_period s" now "[]"]
  have rl: "remove_list_loop (garbage_period s) now (routing_table s) ?keys [] = Inr (filter ?due ?keys)"
    by simp
  have "distinct (filter ?due ?keys)" using d by simp
  moreover have "\<forall>d \<in> set (filter ?due ?keys). map_of (routing_table s) d \<noteq> None"
    by (auto split: option.splits)
  ultimately obtain tbl' where
    res: "delete_all (filter ?due ?keys) (routing_table s) = Inr tbl'"
    and ch: "\<And>d. map_of tbl' d = (if d \<in> set (filter ?due ?keys) then None
                                    else map_of (routing_table s) d)"
    using delete_all_result by blast
  have wf: "table_wf tbl'"
    by (rule delete_all_inv [where P = table_wf, OF _ assms res]) (rule table_wf_delete)
  have "map_of tbl' d =
              (case map_of (routing_table s) d of
                 None \<Rightarrow> None
               | Some cur \<Rightarrow>
                   if garbage_flag cur \<and> now \<ge> garbage_time cur + garbage_period s then None
                   else Some cur)" for d
  proof (cases "map_of (routing_table s) d")
    case None
    then show ?thesis using ch [of d] by simp
  next
    case (Some cur)
    then have "d \<in> set ?keys" unfolding keys using map_of_eq_None_iff [of "routing_table s" d]
      by simp
    then show ?thesis using ch [of d] Some by simp
  qed
  with rl res wf show ?thesis by (simp add: check_garbage_def)
qed

lemma check_garbage_range:
  assumes "entries_in_range (routing_table s)" "check_garbage s now = Inr s'"
  shows "entries_in_range (routing_table s')"
proof -
  from assms(2) obtain rl tbl' where
    res: "delete_all rl (routing_table s) = Inr tbl'" and s': "s' = s\<lparr>routing_table := tbl'\<rparr>"
    by (auto simp: check_garbage_def split: sum.splits)
  have "entries_in_range tbl'"
    by (rule delete_all_inv [where P = entries_in_range, OF _ assms(1) res])
       (rule entries_in_range_delete)
  then show ?thesis by (simp add: s')
qed

subsection \<open>The broadcasts\<close>

lemma entries_sh_pr_loop_eq:
  "entries_sh_pr_loop peer table_entries acc =
     acc @ map (\<lambda>e. if next_hop e = peer then RoutingTableEntry (dst_id e) (next_hop e) INFINITY
                     else e) table_entries"
  by (induction table_entries arbitrary: acc) simp_all

lemma entries_sh_pr_eq:
  "entries_sh_pr peer table_entries =
     map (\<lambda>e. if next_hop e = peer then RoutingTableEntry (dst_id e) (next_hop e) INFINITY else e)
       table_entries"
  by (simp add: entries_sh_pr_def entries_sh_pr_loop_eq)

lemma entries_sh_pr_nth:
  assumes "i < length table_entries"
  shows "dst_id (entries_sh_pr peer table_entries ! i) = dst_id (table_entries ! i) \<and>
         metric (entries_sh_pr peer table_entries ! i) =
           (if next_hop (table_entries ! i) = peer then INFINITY else metric (table_entries ! i))"
  using assms by (simp add: entries_sh_pr_eq RoutingTableEntry_def)

lemma clear_changed_wf:
  assumes "table_wf tbl"
  shows "table_wf (clear_changed tbl)"
proof -
  have "distinct (map fst (clear_changed tbl))"
    using assms unfolding table_wf_def clear_changed_def by (simp add: distinct_map_ran)
  moreover have "\<forall>(k, e) \<in> set (clear_changed tbl). dst_id e = k"
    using assms unfolding table_wf_def clear_changed_def by (auto simp: AList.map_ran_def)
  ultimately show ?thesis unfolding table_wf_def by simp
qed

lemma clear_changed_range:
  assumes "entries_in_range tbl"
  shows "entries_in_range (clear_changed tbl)"
  using assms unfolding entries_in_range_def clear_changed_def
  by (auto simp: AList.map_ran_def)

subsection \<open>Invariants of the loop of \<^verbatim>\<open>main\<close>\<close>

lemma apply_server_event_invariant:
  assumes "table_wf (routing_table s)" "entries_in_range (routing_table s)"
    and "server_costs_nonneg (server_outputs s)" "advertised_in_range ev"
  shows "\<exists>s'. apply_server_event s ev = Inr s' \<and> table_wf (routing_table s') \<and>
           entries_in_range (routing_table s') \<and> server_costs_nonneg (server_outputs s')"
proof (cases ev)
  case (Resolve src_id table_entries now)
  with assms(4) have "\<forall>e \<in> set table_entries. 0 \<le> metric e \<and> metric e \<le> INFINITY"
    by (simp add: advertised_in_range_def)
  from resolve_update_range [OF assms(2,3) this] resolve_update_wf [OF assms(1)] assms(3)
  show ?thesis using Resolve by (simp add: apply_server_event_def config_resolve_update)
next
  case (CheckTimeout now)
  from check_timeout_result [OF assms(1), of now] obtain s' where
    s': "check_timeout s now = Inr s'" "server_outputs s' = server_outputs s"
      "table_wf (routing_table s')"
    by blast
  from check_timeout_range [OF assms(2) s'(1)] s' assms(3) CheckTimeout
  show ?thesis by (simp add: apply_server_event_def)
next
  case (CheckGarbage now)
  from check_garbage_result [OF assms(1), of now] obtain s' where
    s': "check_garbage s now = Inr s'" "server_outputs s' = server_outputs s"
      "table_wf (routing_table s')"
    by blast
  from check_garbage_range [OF assms(2) s'(1)] s' assms(3) CheckGarbage
  show ?thesis by (simp add: apply_server_event_def)
next
  case Periodic
  then show ?thesis using assms
    by (simp add: apply_server_event_def periodic_update_def Let_def clear_changed_wf
        clear_changed_range)
next
  case Triggered
  then show ?thesis using assms
    by (simp add: apply_server_event_def triggered_update_def Let_def clear_changed_wf
        clear_changed_range)
qed

lemma apply_server_events_invariant:
  assumes "table_wf (routing_table s)" "entries_in_range (routing_table s)"
    and "server_costs_nonneg (server_outputs s)" "\<forall>ev \<in> set evs. advertised_in_range ev"
  shows "\<exists>s'. apply_server_events s evs = Inr s' \<and> table_wf (routing_table s') \<and>
           entries_in_range (routing_table s')"
  using assms
proof (induction evs arbitrary: s)
  case Nil
  then show ?case by simp
next
  case (Cons ev evs)
  from Cons.prems(4) have ev: "advertised_in_range ev"
    and evs: "\<forall>ev \<in> set evs. advertised_in_range ev"
    by simp_all
  from apply_server_event_invariant [OF Cons.prems(1,2,3) ev] obtain s1 where
    s1: "apply_server_event s ev = Inr s1" "table_wf (routing_table s1)"
      "entries_in_range (routing_table s1)" "server_costs_nonneg (server_outputs s1)"
    by blast
  from Cons.IH [OF s1(2,3,4) evs] s1(1) show ?case by simp
qed

subsection \<open>A repeated update\<close>

lemma strip_clocks_refresh:
  assumes "map_of tbl d = Some cur"
  shows "strip_clocks (AList.update d (init_timeout now cur) tbl) = strip_clocks tbl"
  using assms
  by (induction tbl) (auto simp: strip_clocks_def init_timeout_def split: if_splits)

lemma resolve_entry_other:
  assumes "d' \<noteq> dst_id received"
  shows "map_of (fst (resolve_entry self_id outs tt src_id now received (tbl, trig))) d'
         = map_of tbl d'"
  by (rule resolve_entry_cases [of self_id outs tt src_id now received tbl trig])
     (use assms in \<open>simp_all add: update_conv'\<close>)

lemma srv_settled_cong:
  assumes "map_of tbl' (dst_id received) = map_of tbl (dst_id received)"
  shows "srv_settled self_id outs tt src_id now tbl' received
         = srv_settled self_id outs tt src_id now tbl received"
  using assms by (simp add: srv_settled_def)

lemma resolve_entry_settles:
  assumes "\<not> garbage_flag received"
  shows "srv_settled self_id outs tt src_id now
           (fst (resolve_entry self_id outs tt src_id now received (tbl, trig))) received"
proof -
  define entry where "entry = add_link_cost outs src_id received"
  note re = resolve_entry_unfold [OF entry_def]
  have g: "\<not> garbage_flag entry" using assms by (simp add: entry_def add_link_cost_fields)
  have h: "next_hop entry = next_hop received" "dst_id entry = dst_id received"
    by (simp_all add: entry_def add_link_cost_fields)
  have st: "srv_settled self_id outs tt src_id now t received =
     (dst_id received = self_id \<or>
      (case map_of t (dst_id received) of
         None \<Rightarrow> metric entry = INFINITY
       | Some current \<Rightarrow>
           \<not> (garbage_flag current \<and> metric entry < INFINITY) \<and>
           (if metric entry = metric current
            then next_hop received = next_hop current \<or> \<not> now \<ge> timeout current + tt / 2
            else \<not> ((next_hop current = src_id \<and> metric entry \<noteq> metric current)
                    \<or> metric entry < metric current))))" for t
    unfolding srv_settled_def entry_def ..
  have inst: "map_of (install now entry t) (dst_id received)
      = Some (init_timeout now (entry\<lparr>changed_flag := True\<rparr>))" for t
    by (simp add: install_def h update_conv')
  let ?res = "fst (resolve_entry self_id outs tt src_id now received (tbl, trig))"
  have after_install: "srv_settled self_id outs tt src_id now (install now entry tbl) received"
    using g h by (simp add: st inst init_timeout_def)
  show ?thesis
  proof (cases "dst_id received \<noteq> self_id")
    case False
    then show ?thesis by (simp add: srv_settled_def)
  next
    case True
    show ?thesis
    proof (cases "map_of tbl (dst_id received)")
      case None
      show ?thesis
      proof (cases "metric entry \<noteq> INFINITY")
        case c1: True
        with True None have "?res = install now entry tbl" by (simp add: re)
        with after_install show ?thesis by simp
      next
        case c1: False
        with True None have "?res = tbl" by (simp add: re)
        with None c1 show ?thesis by (simp add: st)
      qed
    next
      case (Some current)
      show ?thesis
      proof (cases "garbage_flag current \<and> metric entry < INFINITY")
        case c2: True
        with True Some have "?res = install now entry tbl" by (simp add: re)
        with after_install show ?thesis by simp
      next
        case c2: False
        show ?thesis
        proof (cases "metric entry = metric current")
          case c3: True
          show ?thesis
          proof (cases "next_hop received = next_hop current")
            case hp: True
            with True Some c2 c3
            have "?res = AList.update (dst_id received) (init_timeout now current) tbl"
              by (auto simp: re)
            with c2 c3 hp show ?thesis by (auto simp: st update_conv' init_timeout_def)
          next
            case hp: False
            show ?thesis
            proof (cases "now \<ge> timeout current + tt / 2")
              case stale: True
              with True Some c2 c3 hp have "?res = install now entry tbl" by (auto simp: re)
              with after_install show ?thesis by simp
            next
              case stale: False
              with True Some c2 c3 hp have "?res = tbl" by (auto simp: re)
              with Some c2 c3 stale show ?thesis by (auto simp: st)
            qed
          qed
        next
          case c3: False
          show ?thesis
          proof (cases "(next_hop current = src_id \<and> metric entry \<noteq> metric current)
                     \<or> metric entry < metric current")
            case c4: True
            show ?thesis
            proof (cases "metric entry = INFINITY")
              case inf: True
              with True Some c2 c3 c4
              have "?res = AList.update (dst_id received)
                       (init_garbage now
                          ((init_timeout now (entry\<lparr>changed_flag := True\<rparr>))
                             \<lparr>garbage_flag := True\<rparr>)) tbl"
                by (auto simp: re)
              with inf h show ?thesis
                by (simp add: st update_conv' init_timeout_def init_garbage_def)
            next
              case inf: False
              with True Some c2 c3 c4 have "?res = install now entry tbl" by (auto simp: re)
              with after_install show ?thesis by simp
            qed
          next
            case c4: False
            with True Some c2 c3 have "?res = tbl" by (auto simp: re)
            with Some c2 c3 c4 show ?thesis by (auto simp: st)
          qed
        qed
      qed
    qed
  qed
qed

lemma resolve_entry_settled:
  assumes "srv_settled self_id outs tt src_id now tbl received"
  shows "snd (resolve_entry self_id outs tt src_id now received (tbl, trig)) = trig \<and>
         strip_clocks (fst (resolve_entry self_id outs tt src_id now received (tbl, trig)))
           = strip_clocks tbl"
proof -
  define entry where "entry = add_link_cost outs src_id received"
  note re = resolve_entry_unfold [OF entry_def]
  note st = assms [unfolded srv_settled_def, folded entry_def]
  show ?thesis
  proof (cases "dst_id received \<noteq> self_id")
    case False
    then show ?thesis by (simp add: re)
  next
    case True
    show ?thesis
    proof (cases "map_of tbl (dst_id received)")
      case None
      with True st show ?thesis by (simp add: re)
    next
      case (Some current)
      with True st have c2: "\<not> (garbage_flag current \<and> metric entry < INFINITY)"
        and c34: "if metric entry = metric current
            then next_hop received = next_hop current \<or> \<not> now \<ge> timeout current + tt / 2
            else \<not> ((next_hop current = src_id \<and> metric entry \<noteq> metric current)
                    \<or> metric entry < metric current)"
        by (auto split: if_splits)
      show ?thesis
      proof (cases "metric entry = metric current")
        case c3: True
        show ?thesis
        proof (cases "next_hop received = next_hop current")
          case hp: True
          with True Some c2 c3
          have "resolve_entry self_id outs tt src_id now received (tbl, trig)
                = (AList.update (dst_id received) (init_timeout now current) tbl, trig)"
            by (auto simp: re)
          then show ?thesis by (simp add: strip_clocks_refresh [OF Some])
        next
          case hp: False
          with c34 c3 have "\<not> now \<ge> timeout current + tt / 2" by simp
          with True Some c2 c3 hp
          have "resolve_entry self_id outs tt src_id now received (tbl, trig) = (tbl, trig)"
            by (auto simp: re)
          then show ?thesis by simp
        qed
      next
        case c3: False
        with c34 have "\<not> ((next_hop current = src_id \<and> metric entry \<noteq> metric current)
                    \<or> metric entry < metric current)" by simp
        with True Some c2 c3
        have "resolve_entry self_id outs tt src_id now received (tbl, trig) = (tbl, trig)"
          by (auto simp: re)
        then show ?thesis by simp
      qed
    qed
  qed
qed

lemma fold_resolve_entry_other:
  assumes "d' \<notin> dst_id ` set table_entries"
  shows "map_of (fst (fold (resolve_entry self_id outs tt src_id now) table_entries (tbl, trig))) d'
         = map_of tbl d'"
  using assms
proof (induction table_entries arbitrary: tbl trig)
  case Nil
  then show ?case by simp
next
  case (Cons e es)
  obtain tbl1 trig1 where st: "resolve_entry self_id outs tt src_id now e (tbl, trig) = (tbl1, trig1)"
    by (cases "resolve_entry self_id outs tt src_id now e (tbl, trig)")
  from Cons.prems have "d' \<noteq> dst_id e" "d' \<notin> dst_id ` set es" by auto
  from resolve_entry_other [OF this(1), of self_id outs tt src_id now tbl trig]
    Cons.IH [OF this(2), of tbl1 trig1]
  show ?case by (simp add: st)
qed

lemma fold_resolve_entry_settles:
  assumes "distinct (map dst_id table_entries)" "\<forall>e \<in> set table_entries. \<not> garbage_flag e"
  shows "\<forall>e \<in> set table_entries.
           srv_settled self_id outs tt src_id now
             (fst (fold (resolve_entry self_id outs tt src_id now) table_entries (tbl, trig))) e"
  using assms
proof (induction table_entries arbitrary: tbl trig)
  case Nil
  then show ?case by simp
next
  case (Cons e es)
  obtain tbl1 trig1 where st: "resolve_entry self_id outs tt src_id now e (tbl, trig) = (tbl1, trig1)"
    by (cases "resolve_entry self_id outs tt src_id now e (tbl, trig)")
  from Cons.prems(1) have notin: "dst_id e \<notin> dst_id ` set es" and dist: "distinct (map dst_id es)"
    by simp_all
  from Cons.prems(2) have g: "\<not> garbage_flag e" and gs: "\<forall>e \<in> set es. \<not> garbage_flag e"
    by simp_all
  have s1: "srv_settled self_id outs tt src_id now tbl1 e"
    using resolve_entry_settles [OF g, of self_id outs tt src_id now tbl trig] by (simp add: st)
  have "map_of (fst (fold (resolve_entry self_id outs tt src_id now) es (tbl1, trig1))) (dst_id e)
      = map_of tbl1 (dst_id e)"
    by (rule fold_resolve_entry_other [OF notin])
  from srv_settled_cong [OF this] s1
  have "srv_settled self_id outs tt src_id now
      (fst (fold (resolve_entry self_id outs tt src_id now) es (tbl1, trig1))) e"
    by blast
  with Cons.IH [OF dist gs, of tbl1 trig1] show ?case by (simp add: st)
qed

lemma fold_resolve_entry_settled:
  assumes "distinct (map dst_id table_entries)"
    and "\<forall>e \<in> set table_entries. srv_settled self_id outs tt src_id now tbl e"
  shows "snd (fold (resolve_entry self_id outs tt src_id now) table_entries (tbl, trig)) = trig \<and>
         strip_clocks (fst (fold (resolve_entry self_id outs tt src_id now) table_entries (tbl, trig)))
           = strip_clocks tbl"
  using assms
proof (induction table_entries arbitrary: tbl)
  case Nil
  then show ?case by simp
next
  case (Cons e es)
  obtain tbl1 trig1 where st: "resolve_entry self_id outs tt src_id now e (tbl, trig) = (tbl1, trig1)"
    by (cases "resolve_entry self_id outs tt src_id now e (tbl, trig)")
  from Cons.prems(2) have "srv_settled self_id outs tt src_id now tbl e" by simp
  from resolve_entry_settled [OF this, of trig] st
  have t1: "trig1 = trig" and s1: "strip_clocks tbl1 = strip_clocks tbl" by simp_all
  from Cons.prems(1) have notin: "dst_id e \<notin> dst_id ` set es" and dist: "distinct (map dst_id es)"
    by simp_all
  have "srv_settled self_id outs tt src_id now tbl1 e'" if "e' \<in> set es" for e'
  proof -
    from that notin have "dst_id e' \<noteq> dst_id e" by (metis image_eqI)
    from resolve_entry_other [OF this, of self_id outs tt src_id now tbl trig] st
    have "map_of tbl1 (dst_id e') = map_of tbl (dst_id e')" by simp
    from srv_settled_cong [OF this] Cons.prems(2) that show ?thesis by simp
  qed
  then have "\<forall>e \<in> set es. srv_settled self_id outs tt src_id now tbl1 e" by blast
  from Cons.IH [OF dist this] show ?case by (simp add: st t1 s1)
qed

lemma map_of_clear_changed:
  "map_of (clear_changed tbl) d =
     map_option (\<lambda>e. if changed_flag e then e\<lparr>changed_flag := False\<rparr> else e) (map_of tbl d)"
  by (simp add: clear_changed_def map_ran_conv)

lemma srv_settled_clear_changed:
  assumes "srv_settled self_id outs tt src_id now tbl received"
  shows "srv_settled self_id outs tt src_id now (clear_changed tbl) received"
  using assms unfolding srv_settled_def map_of_clear_changed
  by (cases "map_of tbl (dst_id received)") auto

lemma resolve_update_settles:
  assumes "distinct (map dst_id table_entries)" "\<forall>e \<in> set table_entries. \<not> garbage_flag e"
  shows "\<forall>e \<in> set table_entries.
           srv_settled (server_id s) (server_outputs s) (timeout_time s) src_id now
             (routing_table (resolve_update s (src_id, table_entries) now)) e"
  unfolding table_resolve_update by (rule fold_resolve_entry_settles [OF assms])

lemma resolve_update_settled:
  assumes "distinct (map dst_id table_entries)"
    and "\<forall>e \<in> set table_entries.
           srv_settled (server_id s) (server_outputs s) (timeout_time s) src_id now
             (routing_table s) e"
  shows "triggered_update_call (resolve_update s (src_id, table_entries) now)
           = triggered_update_call s \<and>
         strip_clocks (routing_table (resolve_update s (src_id, table_entries) now))
           = strip_clocks (routing_table s)"
proof -
  from fold_resolve_entry_settled [OF assms, of "triggered_update_call s"]
  show ?thesis by (auto simp: resolve_update_def split: prod.split)
qed

lemma resolve_update_twice:
  assumes "distinct (map dst_id table_entries)" "\<forall>e \<in> set table_entries. \<not> garbage_flag e"
  shows "strip_clocks (routing_table
            (resolve_update (resolve_update s (src_id, table_entries) now)
               (src_id, table_entries) now))
           = strip_clocks (routing_table (resolve_update s (src_id, table_entries) now))"
    and "triggered_update_call
            (resolve_update (resolve_update s (src_id, table_entries) now)
               (src_id, table_entries) now)
           = triggered_update_call (resolve_update s (src_id, table_entries) now)"
    and "strip_clocks (routing_table
            (resolve_update (fst (periodic_update (resolve_update s (src_id, table_entries) now)))
               (src_id, table_entries) now))
           = strip_clocks
               (routing_table (fst (periodic_update (resolve_update s (src_id, table_entries) now))))"
proof -
  define s1 where "s1 = resolve_update s (src_id, table_entries) now"
  have cfg: "server_id s1 = server_id s" "server_outputs s1 = server_outputs s"
    "timeout_time s1 = timeout_time s"
    unfolding s1_def by (simp_all add: config_resolve_update)
  have st: "\<forall>e \<in> set table_entries.
           srv_settled (server_id s1) (server_outputs s1) (timeout_time s1) src_id now
             (routing_table s1) e"
    unfolding cfg unfolding s1_def by (rule resolve_update_settles [OF assms])
  from resolve_update_settled [OF assms(1) st]
  show "strip_clocks (routing_table
            (resolve_update (resolve_update s (src_id, table_entries) now)
               (src_id, table_entries) now))
           = strip_clocks (routing_table (resolve_update s (src_id, table_entries) now))"
    and "triggered_update_call
            (resolve_update (resolve_update s (src_id, table_entries) now)
               (src_id, table_entries) now)
           = triggered_update_call (resolve_update s (src_id, table_entries) now)"
    unfolding s1_def by simp_all
  define s1c where "s1c = fst (periodic_update s1)"
  have cfgc: "server_id s1c = server_id s1" "server_outputs s1c = server_outputs s1"
    "timeout_time s1c = timeout_time s1" "routing_table s1c = clear_changed (routing_table s1)"
    unfolding s1c_def by (simp_all add: periodic_update_def Let_def)
  have "\<forall>e \<in> set table_entries.
           srv_settled (server_id s1c) (server_outputs s1c) (timeout_time s1c) src_id now
             (routing_table s1c) e"
    unfolding cfgc using st srv_settled_clear_changed by blast
  from resolve_update_settled [OF assms(1) this]
  show "strip_clocks (routing_table
            (resolve_update (fst (periodic_update (resolve_update s (src_id, table_entries) now)))
               (src_id, table_entries) now))
           = strip_clocks
               (routing_table (fst (periodic_update (resolve_update s (src_id, table_entries) now))))"
    unfolding s1c_def s1_def by simp
qed

section \<open>Further facts the claims rest on\<close>


lemma broadcast_nth:
  assumes "j < length outs"
  shows "broadcast outs table_entries ! j =
           (entries_sh_pr (peer_id (outs ! j)) table_entries, peer_port_no (outs ! j))"
  using assms by (simp add: broadcast_def)

lemma process_update_unknown:
  assumes "\<forall>(p, c, n) \<in> set (outputs r). n \<noteq> sender"
  shows "process_update r sender advertised now = (r, False)"
proof -
  from assms have "find_neighbor (outputs r) sender = None"
    by (simp add: find_neighbor_None)
  then show ?thesis by (simp add: process_update_def)
qed

lemma process_route_replaces_garbage:
  assumes "d \<noteq> self_id" "map_of tbl d = Some (nh, cm, ts, True)" "nh \<noteq> sender"
    and "nm = min (base + m) INFINITY" "nm < cm"
  shows "process_route self_id sender base now (d, m) (tbl, b) =
           (AList.update d (sender, nm, Finite now, False) tbl, True)"
  using assms(1,2,3,5) by (simp add: process_route_unfold [OF assms(4)])

lemma process_route_keeps_garbage:
  assumes "d \<noteq> self_id" "map_of tbl d = Some (sender, cm, ts, True)"
    and "nm = min (base + m) INFINITY" "nm \<noteq> cm" "nm < INFINITY"
  shows "process_route self_id sender base now (d, m) (tbl, b) =
           (AList.update d (sender, nm, Finite now, True) tbl, True)"
  using assms(1,2,4,5) by (simp add: process_route_unfold [OF assms(3)])

lemma resolve_entry_resurrects:
  assumes "dst_id received \<noteq> self_id" "map_of tbl (dst_id received) = Some current"
    and "garbage_flag current" "metric (add_link_cost outs src_id received) < INFINITY"
  shows "resolve_entry self_id outs tt src_id now received (tbl, trig) =
           (install now (add_link_cost outs src_id received) tbl, trig)"
  using assms by (simp add: resolve_entry_unfold [OF refl])

subsection \<open>What a receiver reads of a long packet\<close>





subsection \<open>From condemnation to removal\<close>







text \<open>
  In \<^verbatim>\<open>1Server.py\<close> the garbage timer is a field of its own, which the refresh of CASE 3
  leaves alone: an entry condemned at 180 and advertised again at metric 16 by its next hop
  at 250 is removed by \<^verbatim>\<open>check_garbage\<close> at 300.
\<close>

lemma server_garbage_timer_kept:
  "apply_server_events (server_A\<lparr>routing_table := [(3, RoutingTableEntry 3 2 4)]\<rparr>)
     [CheckTimeout 180, Resolve 2 [RoutingTableEntry 3 2 16] 250, CheckGarbage 300] =
   Inr (server_A\<lparr>routing_table := [], triggered_update_call := True\<rparr>)"
  by (simp add: apply_server_event_def check_timeout_def check_garbage_def resolve_update_def
      resolve_entry_def install_def init_timeout_def init_garbage_def server_A_def
      RoutingTableEntry_def INFINITY_def Let_def)

section \<open>The claims\<close>

text \<open>
  C1. For a sender id that fits the 16-bit header field and entries whose destination ids
  fit the 32-bit record field and whose metrics lie in \<open>[0, INFINITY]\<close>,
  \<^verbatim>\<open>create_response\<close> returns one packet, and \<^verbatim>\<open>parse\<close> of that packet returns
  the command RESPONSE, the version, the same sender id and the same entries in the same
  order. (\<^verbatim>\<open>create_response\<close> never splits, so there is nothing to reassemble.)
\<close>

theorem C1_codec_roundtrip:
  assumes "0 \<le> sender_id" "sender_id \<le> 65535"
    and "\<forall>(d, m) \<in> set entries. 0 \<le> d \<and> d \<le> 4294967295 \<and> 0 \<le> m \<and> m \<le> INFINITY"
  shows "\<exists>packet. create_response sender_id entries = Inr packet \<and>
           parse packet = Inr (Some (COMMAND_RESPONSE, VERSION, sender_id, entries))"
proof -
  from create_response_parse [OF assms] obtain packet where
    "create_response sender_id entries = Inr packet"
    "parse packet = Inr (Some (COMMAND_RESPONSE, VERSION, sender_id, entries))"
    by blast
  then show ?thesis by blast
qed

theorem C1_codec_roundtrip_witness:
  "\<exists>packet. create_response 7 [(3, 5), (70000, 16)] = Inr packet \<and>
     parse packet = Inr (Some (COMMAND_RESPONSE, VERSION, 7, [(3, 5), (70000, 16)]))"
  using C1_codec_roundtrip [of 7 "[(3, 5), (70000, 16)]"]
  by (simp add: INFINITY_def)

text \<open>
  C2. A route that \<^verbatim>\<open>process_update\<close> stores carries \<^const>\<open>INFINITY\<close> or the
  candidate \<open>min (base + m) INFINITY\<close>. Along every sequence of updates, datagrams and
  sweeps, no stored metric exceeds \<^const>\<open>INFINITY\<close>: in \<^verbatim>\<open>ai_router.py\<close> whatever is
  advertised and whatever the link costs are. With link costs and advertised metrics that are not negative (the wire field
  is unsigned, the configured costs are 1 to 15), a table that is a dictionary with metrics
  in \<open>[0, INFINITY]\<close> stays one and the loop raises nothing. The same holds for
  \<^verbatim>\<open>1Server.py\<close> with decoded metrics in \<open>[0, INFINITY]\<close>.
\<close>

theorem C2_metric_bounds:
  "(fst (process_route self_id sender base now (d, m) (tbl, b)) = tbl \<or>
    (\<exists>m' g. fst (process_route self_id sender base now (d, m) (tbl, b))
               = AList.update d (sender, m', Finite now, g) tbl \<and>
            (m' = INFINITY \<or> m' = min (base + m) INFINITY))) \<and>
   (metrics_bounded (routes r) \<longrightarrow>
      (\<forall>r'. apply_events r evs = Inr r' \<longrightarrow> metrics_bounded (routes r'))) \<and>
   (distinct (map fst (routes r)) \<and> metrics_bounded (routes r) \<and> metrics_nonneg (routes r) \<and>
    link_costs_nonneg (outputs r) \<and> (\<forall>ev \<in> set evs. advertises_nonneg ev) \<longrightarrow>
      (\<exists>r'. apply_events r evs = Inr r' \<and> distinct (map fst (routes r')) \<and>
            metrics_bounded (routes r') \<and> metrics_nonneg (routes r'))) \<and>
   (table_wf (routing_table s) \<and> entries_in_range (routing_table s) \<and>
    server_costs_nonneg (server_outputs s) \<and> (\<forall>ev \<in> set sevs. advertised_in_range ev) \<longrightarrow>
      (\<exists>s'. apply_server_events s sevs = Inr s' \<and> table_wf (routing_table s') \<and>
            entries_in_range (routing_table s')))"
proof (intro conjI impI allI)
  show "fst (process_route self_id sender base now (d, m) (tbl, b)) = tbl \<or>
    (\<exists>m' g. fst (process_route self_id sender base now (d, m) (tbl, b))
               = AList.update d (sender, m', Finite now, g) tbl \<and>
            (m' = INFINITY \<or> m' = min (base + m) INFINITY))"
    by (rule process_route_cases [of self_id sender base now d m tbl b]) blast+
next
  fix r'
  assume "metrics_bounded (routes r)" "apply_events r evs = Inr r'"
  then show "metrics_bounded (routes r')" by (rule apply_events_bounded)
next
  assume a: "distinct (map fst (routes r)) \<and> metrics_bounded (routes r) \<and>
    metrics_nonneg (routes r) \<and> link_costs_nonneg (outputs r) \<and>
    (\<forall>ev \<in> set evs. advertises_nonneg ev)"
  then obtain r' where r': "apply_events r evs = Inr r'" "distinct (map fst (routes r'))"
      "metrics_nonneg (routes r')"
    using apply_events_invariant [of r evs] by blast
  from a r'(1) have "metrics_bounded (routes r')" by (blast intro: apply_events_bounded)
  with r' show "\<exists>r'. apply_events r evs = Inr r' \<and> distinct (map fst (routes r')) \<and>
            metrics_bounded (routes r') \<and> metrics_nonneg (routes r')"
    by blast
next
  assume "table_wf (routing_table s) \<and> entries_in_range (routing_table s) \<and>
    server_costs_nonneg (server_outputs s) \<and> (\<forall>ev \<in> set sevs. advertised_in_range ev)"
  then show "\<exists>s'. apply_server_events s sevs = Inr s' \<and> table_wf (routing_table s') \<and>
            entries_in_range (routing_table s')"
    using apply_server_events_invariant [of s sevs] by blast
qed

theorem C2_metric_bounds_witness:
  "(\<exists>r'. apply_events router_A [Update 2 [(3, 4), (2, 0)] 10, Update 2 [(3, 15)] 20, Sweep 500]
            = Inr r' \<and>
          distinct (map fst (routes r')) \<and> metrics_bounded (routes r') \<and>
          metrics_nonneg (routes r')) \<and>
   (\<exists>s'. apply_server_events server_A
            [Resolve 2 [RoutingTableEntry 3 2 15] 10, CheckTimeout 500, CheckGarbage 700]
            = Inr s' \<and>
          table_wf (routing_table s') \<and> entries_in_range (routing_table s'))"
  using C2_metric_bounds [where r = router_A
      and evs = "[Update 2 [(3, 4), (2, 0)] 10, Update 2 [(3, 15)] 20, Sweep 500]"
      and s = server_A
      and sevs = "[Resolve 2 [RoutingTableEntry 3 2 15] 10, CheckTimeout 500, CheckGarbage 700]"]
  by (simp add: router_A_def server_A_def metrics_bounded_def metrics_nonneg_def
      link_costs_nonneg_def advertises_nonneg_def table_wf_def entries_in_range_def
      server_costs_nonneg_def advertised_in_range_def RoutingTableEntry_def INFINITY_def)

text \<open>
  C3. In the list built for neighbour \<open>N\<close>, entry for entry in table order, the destination
  is the stored one and the metric is \<^const>\<open>INFINITY\<close> when the stored next hop is \<open>N\<close>
  and the stored metric otherwise. \<^verbatim>\<open>send_updates\<close> hands one datagram per output to
  the socket, the encoding of that list for that output's neighbour; \<^verbatim>\<open>periodic_update\<close>
  and \<^verbatim>\<open>triggered_update\<close> give \<^verbatim>\<open>encode_packet\<close> that list for each output, built
  from the whole table after the self route, or from the changed entries.
\<close>

theorem C3_poisoned_reverse:
  "(i < length tbl \<longrightarrow>
      length (routes_to_send N tbl) = length tbl \<and>
      fst (routes_to_send N tbl ! i) = fst (tbl ! i) \<and>
      snd (routes_to_send N tbl ! i) =
        (if route_next_hop (snd (tbl ! i)) = N then INFINITY else route_metric (snd (tbl ! i)))) \<and>
   (send_updates r = Inr sent \<and> j < length (outputs r) \<longrightarrow>
      length sent = length (outputs r) \<and> snd (sent ! j) = fst (outputs r ! j) \<and>
      create_response (router_id r) (routes_to_send (snd (snd (outputs r ! j))) (routes r))
        = Inr (fst (sent ! j))) \<and>
   (i < length es \<longrightarrow>
      length (entries_sh_pr N es) = length es \<and>
      dst_id (entries_sh_pr N es ! i) = dst_id (es ! i) \<and>
      metric (entries_sh_pr N es ! i) =
        (if next_hop (es ! i) = N then INFINITY else metric (es ! i))) \<and>
   (k < length (server_outputs s) \<longrightarrow>
      snd (periodic_update s) ! k =
        (entries_sh_pr (peer_id (server_outputs s ! k))
           (RoutingTableEntry (server_id s) (server_id s) 0 # map snd (routing_table s)),
         peer_port_no (server_outputs s ! k))) \<and>
   (k < length (server_outputs s) \<and> filter changed_flag (map snd (routing_table s)) \<noteq> [] \<longrightarrow>
      snd (triggered_update s) ! k =
        (entries_sh_pr (peer_id (server_outputs s ! k))
           (map (\<lambda>e. e\<lparr>changed_flag := False\<rparr>)
              (filter changed_flag (map snd (routing_table s)))),
         peer_port_no (server_outputs s ! k)))"
proof (intro conjI impI)
  assume "i < length tbl"
  then show "length (routes_to_send N tbl) = length tbl"
    "fst (routes_to_send N tbl ! i) = fst (tbl ! i)"
    "snd (routes_to_send N tbl ! i) =
        (if route_next_hop (snd (tbl ! i)) = N then INFINITY else route_metric (snd (tbl ! i)))"
    by (simp_all add: routes_to_send_nth) (simp add: routes_to_send_eq)
next
  assume a: "send_updates r = Inr sent \<and> j < length (outputs r)"
  then have "length sent = length (outputs r) \<and> snd (sent ! j) = fst (outputs r ! j) \<and>
      create_response (router_id r) (routes_to_send (snd (snd (outputs r ! j))) (routes r))
        = Inr (fst (sent ! j))"
    using send_updates_result [of r sent j] by blast
  then show "length sent = length (outputs r)" "snd (sent ! j) = fst (outputs r ! j)"
    "create_response (router_id r) (routes_to_send (snd (snd (outputs r ! j))) (routes r))
        = Inr (fst (sent ! j))"
    by blast+
next
  assume "i < length es"
  then show "length (entries_sh_pr N es) = length es"
    "dst_id (entries_sh_pr N es ! i) = dst_id (es ! i)"
    "metric (entries_sh_pr N es ! i) =
        (if next_hop (es ! i) = N then INFINITY else metric (es ! i))"
    using entries_sh_pr_nth [of i es N] by (simp_all add: entries_sh_pr_eq)
next
  assume "k < length (server_outputs s)"
  then show "snd (periodic_update s) ! k =
        (entries_sh_pr (peer_id (server_outputs s ! k))
           (RoutingTableEntry (server_id s) (server_id s) 0 # map snd (routing_table s)),
         peer_port_no (server_outputs s ! k))"
    by (simp add: periodic_update_def Let_def broadcast_nth)
next
  assume "k < length (server_outputs s) \<and> filter changed_flag (map snd (routing_table s)) \<noteq> []"
  then show "snd (triggered_update s) ! k =
        (entries_sh_pr (peer_id (server_outputs s ! k))
           (map (\<lambda>e. e\<lparr>changed_flag := False\<rparr>)
              (filter changed_flag (map snd (routing_table s)))),
         peer_port_no (server_outputs s ! k))"
    by (simp add: triggered_update_def Let_def broadcast_nth)
qed

theorem C3_poisoned_reverse_witness:
  "routes_to_send 2 (routes router_A) = [(2, INFINITY), (1, 0)] \<and>
   send_updates router_A =
     Inr [([2, 2, 0, 1] @ replicate 12 0 @ [0, 0, 0, 2, 0, 0, 0, 16] @
           replicate 12 0 @ [0, 0, 0, 1, 0, 0, 0, 0], 5002)] \<and>
   create_response 1 (routes_to_send 2 (routes router_A)) =
     Inr ([2, 2, 0, 1] @ replicate 12 0 @ [0, 0, 0, 2, 0, 0, 0, 16] @
          replicate 12 0 @ [0, 0, 0, 1, 0, 0, 0, 0]) \<and>
   map metric (entries_sh_pr 2 [RoutingTableEntry 3 2 4, RoutingTableEntry 5 7 2]) = [INFINITY, 2] \<and>
   snd (periodic_update
          (server_A\<lparr>routing_table := [(3, (RoutingTableEntry 3 2 4)\<lparr>changed_flag := True\<rparr>)]\<rparr>)) =
     [([RoutingTableEntry 1 1 0, RoutingTableEntry 3 2 INFINITY], 5002)] \<and>
   snd (triggered_update
          (server_A\<lparr>routing_table := [(3, (RoutingTableEntry 3 2 4)\<lparr>changed_flag := True\<rparr>)]\<rparr>)) =
     [([RoutingTableEntry 3 2 INFINITY], 5002)]"
  using C3_poisoned_reverse [where i = 0 and tbl = "routes router_A" and N = 2 and r = router_A
      and sent = "[([2, 2, 0, 1] @ replicate 12 0 @ [0, 0, 0, 2, 0, 0, 0, 16] @
           replicate 12 0 @ [0, 0, 0, 1, 0, 0, 0, 0], 5002)]"
      and j = 0 and es = "[RoutingTableEntry 3 2 4, RoutingTableEntry 5 7 2]" and k = 0
      and s = "server_A\<lparr>routing_table := [(3, (RoutingTableEntry 3 2 4)\<lparr>changed_flag := True\<rparr>)]\<rparr>"]
    C3_poisoned_reverse [where i = 1 and tbl = "routes router_A" and N = 2 and r = router_A
      and sent = "[([2, 2, 0, 1] @ replicate 12 0 @ [0, 0, 0, 2, 0, 0, 0, 16] @
           replicate 12 0 @ [0, 0, 0, 1, 0, 0, 0, 0], 5002)]"
      and j = 0 and es = "[RoutingTableEntry 3 2 4, RoutingTableEntry 5 7 2]" and k = 0
      and s = "server_A\<lparr>routing_table := [(3, (RoutingTableEntry 3 2 4)\<lparr>changed_flag := True\<rparr>)]\<rparr>"]
  by (simp add: router_A_def server_A_def routes_to_send_eq route_next_hop_def route_metric_def
      entries_sh_pr_eq RoutingTableEntry_def periodic_update_def triggered_update_def broadcast_def
      send_updates_def create_response_def create_header_def pack_BBH_def pack_B_def pack_H_def
      create_rte_def pack_12xII_def pack_I_def COMMAND_RESPONSE_def VERSION_def INFINITY_def)

text \<open>
  C4, as the code has it. \<^verbatim>\<open>parse\<close> never raises, and it returns \<^verbatim>\<open>None\<close> exactly
  when the buffer is shorter than the 4-byte header or its version byte is not 2. A payload
  whose length is not a multiple of 20 is not rejected: the bytes after the last whole record
  are ignored, and the result is that of the buffer cut after that record.
\<close>

theorem C4_parse_fails_iff:
  "(\<forall>e. parse data \<noteq> Inl e) \<and>
   (parse data = Inr None \<longleftrightarrow> length data < HEADER_SIZE \<or> uint (data ! 1) \<noteq> VERSION) \<and>
   (HEADER_SIZE \<le> length data \<longrightarrow>
      parse data =
      parse (take (HEADER_SIZE + RTE_SIZE * ((length data - HEADER_SIZE) div RTE_SIZE)) data))"
  by (simp add: parse_cases [of data] parse_ignores_tail)

theorem C4_parse_fails_iff_witness:
  "parse [2, 2, 0, 1, 0] \<noteq> Inr None \<and> parse [2, 2, 0, 1, 0] = parse [2, 2, 0, 1]"
  using C4_parse_fails_iff [of "[2, 2, 0, 1, 0]"]
  by (auto simp: HEADER_SIZE_def VERSION_def RTE_SIZE_def)

text \<open>
  The claim C4 as stated fails: a version-2 buffer of five bytes has a payload of one byte,
  not a multiple of 20, and \<^verbatim>\<open>parse\<close> does not return \<^verbatim>\<open>None\<close> for it.
\<close>

theorem C4_counterexample:
  "\<not> (parse [2, 2, 0, 1, 0] = Inr None \<longleftrightarrow>
       length [2, 2, 0, 1, 0 :: byte] < HEADER_SIZE
       \<or> uint ([2, 2, 0, 1, 0 :: byte] ! 1) \<noteq> VERSION
       \<or> (length [2, 2, 0, 1, 0 :: byte] - HEADER_SIZE) mod RTE_SIZE \<noteq> 0)"
  by (simp add: parse_cases HEADER_SIZE_def RTE_SIZE_def VERSION_def)

text \<open>
  C5 fails in \<^verbatim>\<open>ai_router.py\<close> when the advertisement comes from the entry's current
  next hop: router A holds destination 3 through neighbour 2 in garbage state, neighbour 2
  advertises it at metric 1, and the stored route gets the metric 6 but keeps its garbage
  flag. (From another neighbour the flag is cleared, \<open>process_route_replaces_garbage\<close>;
  \<^verbatim>\<open>1Server.py\<close> clears it from any source, \<open>resolve_entry_resurrects\<close>.)
\<close>

theorem C5_same_neighbour_keeps_garbage:
  "process_update (router_A\<lparr>routes := [(3, (2, 16, Finite 0, True))]\<rparr>) 2 [(3, 1)] 10 =
     (router_A\<lparr>routes := [(3, (2, 6, Finite 10, True))]\<rparr>, True)"
  by (simp add: process_update_def process_route_def router_A_def INFINITY_def)







text \<open>
  C8 fails in \<^verbatim>\<open>1Server.py\<close>: \<^verbatim>\<open>resolve_update\<close> has no test that the sender is a
  configured neighbour. Router A, whose only neighbour is 2, receives from router 9 an entry
  for destination 5 at metric 3 and installs it, at the metric as received.
  (\<^verbatim>\<open>process_update\<close> of \<^verbatim>\<open>ai_router.py\<close> rejects such an update,
  \<open>process_update_unknown\<close>.)
\<close>

theorem C8_unknown_neighbour_installed:
  "resolve_update server_A (9, [RoutingTableEntry 5 9 3]) 10 =
     server_A\<lparr>routing_table :=
       [(5, \<lparr>dst_id = 5, next_hop = 9, metric = 3, changed_flag = True, garbage_flag = False,
             timeout = 10, garbage_time = 0\<rparr>)]\<rparr>"
  by (simp add: resolve_update_def resolve_entry_def install_def init_timeout_def server_A_def
      RoutingTableEntry_def INFINITY_def)

text \<open>
  C9, as the code has it. When the advertised destinations are pairwise distinct, a second
  \<^verbatim>\<open>process_update\<close> with the same sender and entries returns \<^verbatim>\<open>False\<close> and leaves
  every destination, next hop, metric and garbage flag of the table, in its order, as the
  first left them. The same holds for \<^verbatim>\<open>resolve_update\<close> at the same clock reading,
  for entries that come with their garbage flag down: the table but for its clock fields
  and the triggered-update flag stay as they were, also when the changed flags were cleared
  by a periodic update in between, so that no changed flag is set again.
\<close>

theorem C9_repeated_update:
  "(distinct (map fst advertised) \<longrightarrow>
      snd (process_update (fst (process_update r sender advertised now)) sender advertised now')
        = False \<and>
      strip_times (routes (fst (process_update (fst (process_update r sender advertised now))
                                  sender advertised now')))
        = strip_times (routes (fst (process_update r sender advertised now)))) \<and>
   (distinct (map dst_id es) \<and> (\<forall>e \<in> set es. \<not> garbage_flag e) \<longrightarrow>
      strip_clocks (routing_table
          (resolve_update (resolve_update s (src_id, es) now) (src_id, es) now))
        = strip_clocks (routing_table (resolve_update s (src_id, es) now)) \<and>
      triggered_update_call (resolve_update (resolve_update s (src_id, es) now) (src_id, es) now)
        = triggered_update_call (resolve_update s (src_id, es) now) \<and>
      strip_clocks (routing_table
          (resolve_update (fst (periodic_update (resolve_update s (src_id, es) now)))
             (src_id, es) now))
        = strip_clocks (routing_table (fst (periodic_update (resolve_update s (src_id, es) now)))))"
proof (intro conjI impI)
  assume d: "distinct (map fst advertised)"
  from process_update_twice [OF d, of r sender now now']
  show "snd (process_update (fst (process_update r sender advertised now)) sender advertised now')
        = False"
    and "strip_times (routes (fst (process_update (fst (process_update r sender advertised now))
                                  sender advertised now')))
        = strip_times (routes (fst (process_update r sender advertised now)))"
    by simp_all
next
  assume a: "distinct (map dst_id es) \<and> (\<forall>e \<in> set es. \<not> garbage_flag e)"
  then have d: "distinct (map dst_id es)" and g: "\<forall>e \<in> set es. \<not> garbage_flag e" by simp_all
  from resolve_update_twice [OF d g, of s src_id now]
  show "strip_clocks (routing_table
          (resolve_update (resolve_update s (src_id, es) now) (src_id, es) now))
        = strip_clocks (routing_table (resolve_update s (src_id, es) now))"
    and "triggered_update_call (resolve_update (resolve_update s (src_id, es) now) (src_id, es) now)
        = triggered_update_call (resolve_update s (src_id, es) now)"
    and "strip_clocks (routing_table
          (resolve_update (fst (periodic_update (resolve_update s (src_id, es) now)))
             (src_id, es) now))
        = strip_clocks (routing_table (fst (periodic_update (resolve_update s (src_id, es) now))))"
    by simp_all
qed

theorem C9_repeated_update_witness:
  "snd (process_update (fst (process_update router_A 2 [(3, 4), (2, 0)] 10)) 2 [(3, 4), (2, 0)] 20)
     = False \<and>
   strip_times (routes (fst (process_update (fst (process_update router_A 2 [(3, 4), (2, 0)] 10))
                              2 [(3, 4), (2, 0)] 20)))
     = [(2, 2, 5, False), (1, 1, 0, False), (3, 2, 9, False)] \<and>
   strip_clocks (routing_table
       (resolve_update (resolve_update server_A (2, [RoutingTableEntry 3 2 4]) 10)
          (2, [RoutingTableEntry 3 2 4]) 10))
     = [(3, \<lparr>dst_id = 3, next_hop = 2, metric = 9, changed_flag = True, garbage_flag = False,
             timeout = 0, garbage_time = 0\<rparr>)]"
  using C9_repeated_update [where advertised = "[(3, 4), (2, 0)]" and r = router_A and sender = 2
      and now = 10 and now' = 20 and es = "[RoutingTableEntry 3 2 4]" and s = server_A
      and src_id = 2]
  by (simp add: process_update_def process_route_def router_A_def INFINITY_def strip_times_def
      resolve_update_def resolve_entry_def install_def init_timeout_def server_A_def
      RoutingTableEntry_def strip_clocks_def)

text \<open>
  The claim C9 as stated fails in \<^verbatim>\<open>ai_router.py\<close> for an advertisement that names a
  destination twice. With \<open>(5, 3), (5, 1)\<close> the second application returns \<^verbatim>\<open>True\<close>
  again; with \<open>(5, 15), (5, 1)\<close> it also leaves the route with its garbage flag up, where
  the first application left it down.
\<close>

theorem C9_counterexample:
  "snd (process_update (fst (process_update (router_A\<lparr>routes := []\<rparr>) 2 [(5, 3), (5, 1)] 10))
          2 [(5, 3), (5, 1)] 10) = True \<and>
   strip_times (routes (fst (process_update (router_A\<lparr>routes := []\<rparr>) 2 [(5, 15), (5, 1)] 10)))
     = [(5, 2, 6, False)] \<and>
   strip_times (routes (fst (process_update
        (fst (process_update (router_A\<lparr>routes := []\<rparr>) 2 [(5, 15), (5, 1)] 10))
        2 [(5, 15), (5, 1)] 10)))
     = [(5, 2, 6, True)]"
  by (simp add: process_update_def process_route_def router_A_def INFINITY_def strip_times_def)

text \<open>
  C10. \<^verbatim>\<open>parse\<close> does not look at the command byte: every buffer of at least four
  bytes whose version byte is 2 parses, and the result carries the command byte as it is.
  The command is tested afterwards, in the loop of \<^verbatim>\<open>run\<close>: a RESPONSE goes to
  \<^verbatim>\<open>process_update\<close>, any other command leaves the router as it was.
\<close>

theorem C10_parse_keeps_command:
  assumes "HEADER_SIZE \<le> length data" "uint (data ! 1) = VERSION"
  shows "\<exists>advertised.
           parse data = Inr (Some (uint (data ! 0), VERSION, unpack_H (data ! 2) (data ! 3), advertised)) \<and>
           handle_packet r data now =
             (if uint (data ! 0) = COMMAND_RESPONSE
              then process_update r (unpack_H (data ! 2) (data ! 3)) advertised now
              else (r, False))"
  using assms by (simp add: handle_packet_def parse_cases)

theorem C10_parse_keeps_command_witness:
  "parse [1, 2, 0, 7] = Inr (Some (COMMAND_REQUEST, VERSION, 7, [])) \<and>
   parse [9, 2, 0, 7] = Inr (Some (9, VERSION, 7, [])) \<and>
   handle_packet router_A [1, 2, 0, 7] 0 = (router_A, False)"
  using C10_parse_keeps_command [of "[1, 2, 0, 7]" router_A 0]
    C10_parse_keeps_command [of "[9, 2, 0, 7]" router_A 0]
  by (auto simp: HEADER_SIZE_def VERSION_def COMMAND_REQUEST_def COMMAND_RESPONSE_def unpack_H_def
      parse_cases RTE_SIZE_def)

end
